theory Spec2Isabelle
  imports Main "HOL-Library.Sublist"
begin

section \<open>Values, strings and errors shared by the engine\<close>

text \<open>
  JavaScript values as far as the engine inspects them. Numbers are the integers the
  validators compare against (\<open>version !== 1\<close>, exit codes); an object is its list of
  own properties, read with \<open>jget\<close>, a missing property reading as \<open>undefined\<close>.
\<close>

datatype json =
    JUndefined
  | JNull
  | JBool bool
  | JNum int
  | JStr string
  | JArr "json list"
  | JObj "(string \<times> json) list"

text \<open>Every \<open>throw new Error(msg)\<close> of the source is the value \<open>Error msg\<close>.\<close>

datatype error = Error string

definition nl :: string where
  "nl = [CHR 0x0A]"

text \<open>
  \<open>String.prototype.trim\<close>: strings are lists of code units below 256; the white space
  and line terminators of ECMAScript in that range are TAB, LF, VT, FF, CR, SP and NBSP.
\<close>

definition is_js_space :: "char \<Rightarrow> bool" where
  "is_js_space c = (c \<in> set [CHR 0x09, CHR 0x0A, CHR 0x0B, CHR 0x0C, CHR 0x0D, CHR 0x20, CHR 0xA0])"

definition trimStart :: "string \<Rightarrow> string" where
  "trimStart s = dropWhile is_js_space s"

definition trimEnd :: "string \<Rightarrow> string" where
  "trimEnd s = rev (dropWhile is_js_space (rev s))"

definition trim :: "string \<Rightarrow> string" where
  "trim s = trimEnd (trimStart s)"

text \<open>\<open>Array.prototype.join\<close> on strings.\<close>

fun join :: "string \<Rightarrow> string list \<Rightarrow> string" where
  "join sep [] = []"
| "join sep [x] = x"
| "join sep (x # y # ys) = x @ sep @ join sep (y # ys)"

text \<open>Decimal rendering of a number inside a template literal.\<close>

definition digit_char :: "nat \<Rightarrow> char" where
  "digit_char d = char_of (48 + d)"

fun string_of_nat :: "nat \<Rightarrow> string" where
  "string_of_nat n = (if n < 10 then [digit_char n] else string_of_nat (n div 10) @ [digit_char (n mod 10)])"

declare string_of_nat.simps [simp del]

definition string_of_int :: "int \<Rightarrow> string" where
  "string_of_int i = (if i < 0 then CHR ''-'' # string_of_nat (nat (- i)) else string_of_nat (nat i))"

definition dq :: string where
  "dq = [CHR 0x22]"

definition sq :: string where
  "sq = [CHR 0x27]"

text \<open>Property access \<open>o.k\<close> on a value that is neither \<open>null\<close> nor \<open>undefined\<close>.\<close>

fun jget :: "json \<Rightarrow> string \<Rightarrow> json" where
  "jget (JObj kvs) k = (case map_of kvs k of Some v \<Rightarrow> v | None \<Rightarrow> JUndefined)"
| "jget _ k = JUndefined"

text \<open>Truthiness, as \<open>||\<close>, \<open>&&\<close>, \<open>!\<close> and \<open>if\<close> read a value.\<close>

fun truthy :: "json \<Rightarrow> bool" where
  "truthy JUndefined = False"
| "truthy JNull = False"
| "truthy (JBool b) = b"
| "truthy (JNum i) = (i \<noteq> 0)"
| "truthy (JStr s) = (s \<noteq> [])"
| "truthy (JArr xs) = True"
| "truthy (JObj kvs) = True"

text \<open>
  \<open>Number::toString\<close> on an integer: up to 21 digits are written out, a longer number
  takes the exponent form, its digits without the trailing zeros and the exponent after
  \<open>e+\<close> (\<open>String(1e21)\<close> is \<open>1e+21\<close>).
\<close>

definition stripTrailingZeros :: "string \<Rightarrow> string" where
  "stripTrailingZeros s = rev (dropWhile (\<lambda>c. c = CHR ''0'') (rev s))"

definition number_to_string :: "int \<Rightarrow> string" where
  "number_to_string i =
     (let digits = string_of_nat (nat \<bar>i\<bar>);
          sign = (if i < 0 then ''-'' else [])
      in
        if length digits \<le> 21 then sign @ digits
        else
          let m = stripTrailingZeros digits
          in sign @ [hd m] @ (if tl m = [] then [] else ''.'' @ tl m)
               @ ''e+'' @ string_of_nat (length digits - 1))"

text \<open>
  \<open>String(v)\<close> and the conversion inside a template literal: an array is its elements
  joined by commas, \<open>null\<close> and \<open>undefined\<close> elements rendered empty.
\<close>

fun js_String :: "json \<Rightarrow> string"
  and js_element :: "json \<Rightarrow> string"
where
  "js_String JUndefined = ''undefined''"
| "js_String JNull = ''null''"
| "js_String (JBool b) = (if b then ''true'' else ''false'')"
| "js_String (JNum i) = number_to_string i"
| "js_String (JStr s) = s"
| "js_String (JArr xs) = join '','' (map js_element xs)"
| "js_String (JObj kvs) = ''[object Object]''"
| "js_element v = (if v = JUndefined \<or> v = JNull then [] else js_String v)"


section \<open>Paths (Node's \<open>path\<close> module on POSIX, as the engine uses it)\<close>

text \<open>
  \<open>path.normalize\<close>, \<open>path.join\<close>, \<open>path.resolve\<close> and \<open>path.relative\<close> belong to the
  runtime, not to the repository. They are written here after the runtime's algorithm:
  a path is cut at \<open>/\<close>; empty and \<open>.\<close> segments are dropped; \<open>..\<close> removes the segment
  before it, and where there is none it is kept in a relative path and dropped in an
  absolute one.
\<close>

text \<open>\<open>s.split(c)\<close> for a one-character separator: \<open>cur\<close> is the piece being read.\<close>

primrec split_from :: "char \<Rightarrow> string \<Rightarrow> string \<Rightarrow> string list" where
  "split_from c cur [] = [cur]"
| "split_from c cur (x # xs) =
     (if x = c then cur # split_from c [] xs else split_from c (cur @ [x]) xs)"

definition split_on :: "char \<Rightarrow> string \<Rightarrow> string list" where
  "split_on c s = split_from c [] s"

primrec normalizeSegments :: "bool \<Rightarrow> string list \<Rightarrow> string list \<Rightarrow> string list" where
  "normalizeSegments allowAboveRoot res [] = res"
| "normalizeSegments allowAboveRoot res (s # ss) =
     (if s = [] \<or> s = ''.'' then normalizeSegments allowAboveRoot res ss
      else if s = ''..'' then
        (if res \<noteq> [] \<and> last res \<noteq> ''..'' then normalizeSegments allowAboveRoot (butlast res) ss
         else if allowAboveRoot then normalizeSegments allowAboveRoot (res @ [''..'']) ss
         else normalizeSegments allowAboveRoot res ss)
      else normalizeSegments allowAboveRoot (res @ [s]) ss)"

definition isAbsolute :: "string \<Rightarrow> bool" where
  "isAbsolute p = (p \<noteq> [] \<and> hd p = CHR ''/'')"

definition posix_normalize :: "string \<Rightarrow> string" where
  "posix_normalize p =
     (if p = [] then ''.''
      else
        let trailingSeparator = (last p = CHR ''/'');
            res = join ''/'' (normalizeSegments (\<not> isAbsolute p) [] (split_on CHR ''/'' p))
        in
          if res = [] then (if isAbsolute p then ''/'' else if trailingSeparator then ''./'' else ''.'')
          else (if isAbsolute p then ''/'' else []) @ res @ (if trailingSeparator then ''/'' else []))"

text \<open>\<open>path.join(a, b, ...)\<close>: the non-empty arguments joined by \<open>/\<close>, then normalised.\<close>

definition path_join :: "string list \<Rightarrow> string" where
  "path_join parts = posix_normalize (join ''/'' (filter (\<lambda>s. s \<noteq> []) parts))"

text \<open>
  \<open>path.resolve(p)\<close> in the working directory \<open>cwd\<close> (an absolute path), as the list of
  segments below the root.
\<close>

definition resolveSegments :: "string \<Rightarrow> string \<Rightarrow> string list" where
  "resolveSegments cwd p =
     normalizeSegments False [] (split_on CHR ''/'' (if isAbsolute p then p else cwd @ ''/'' @ p))"

definition posix_resolve :: "string \<Rightarrow> string \<Rightarrow> string" where
  "posix_resolve cwd p = ''/'' @ join ''/'' (resolveSegments cwd p)"

text \<open>Dropping the longest common prefix of two segment lists.\<close>

fun dropCommon :: "string list \<Rightarrow> string list \<Rightarrow> string list \<times> string list" where
  "dropCommon (a # as) (b # bs) = (if a = b then dropCommon as bs else (a # as, b # bs))"
| "dropCommon as bs = (as, bs)"

text \<open>
  \<open>path.relative(from, to)\<close>: one \<open>..\<close> for every segment of \<open>from\<close> below the common
  directory, then the segments of \<open>to\<close> below it; the empty string when both resolve to
  the same path.
\<close>

definition posix_relative :: "string \<Rightarrow> string \<Rightarrow> string \<Rightarrow> string" where
  "posix_relative cwd from to =
     (case dropCommon (resolveSegments cwd from) (resolveSegments cwd to) of
        (up, down) \<Rightarrow> join ''/'' (replicate (length up) ''..'' @ down))"

text \<open>\<open>s.startsWith(t)\<close> and \<open>s.endsWith(t)\<close>\<close>

definition startsWith :: "string \<Rightarrow> string \<Rightarrow> bool" where
  "startsWith s t = prefix t s"

definition endsWith :: "string \<Rightarrow> string \<Rightarrow> bool" where
  "endsWith s t = suffix t s"

text \<open>\<open>s.replace(/\\/g, '/')\<close>\<close>

definition backslashToSlash :: "string \<Rightarrow> string" where
  "backslashToSlash s = map (\<lambda>c. if c = CHR 0x5C then CHR ''/'' else c) s"

section \<open>Kernel bridge (scripts/ecc/kernel.js)\<close>

datatype kernel_mode = Auto | Rust | Node

record kernel =
  k_mode :: kernel_mode
  k_enabled :: bool
  k_bin :: "string option"

text \<open>
  \<open>getKernel\<close>, given the mode read from the environment and what \<open>findKernelBinary\<close>
  found (\<open>None\<close> is \<open>null\<close>). \<open>!!bin\<close> is false for \<open>null\<close> and for the empty string.
\<close>

definition getKernel :: "kernel_mode \<Rightarrow> string option \<Rightarrow> error + kernel" where
  "getKernel mode bin =
     (if mode = Node then Inr \<lparr>k_mode = mode, k_enabled = False, k_bin = None\<rparr>
      else if mode = Rust \<and> (bin = None \<or> bin = Some [])
      then Inl (Error (''ECC kernel required but not found. Build it with:'' @ nl @
             ''  cargo build --release --manifest-path crates/ecc-kernel/Cargo.toml'' @ nl @
             ''Then re-run, or set ECC_KERNEL=node to force JS fallback.''))
      else Inr \<lparr>k_mode = mode, k_enabled = (bin \<noteq> None \<and> bin \<noteq> Some []), k_bin = bin\<rparr>)"

text \<open>
  What \<open>spawnSync\<close> hands back: \<open>res.error\<close> (its message), \<open>res.status\<close> (\<open>None\<close> is
  \<open>null\<close>, a child ended by a signal), and the two captured streams.
\<close>

record spawn_result =
  sp_error :: "string option"
  sp_status :: "int option"
  sp_stdout :: string
  sp_stderr :: string

definition status_text :: "int option \<Rightarrow> string" where
  "status_text st = (case st of None \<Rightarrow> ''null'' | Some i \<Rightarrow> string_of_int i)"

text \<open>
  \<open>runKernel(command, inputObj)\<close>. The child process and \<open>JSON.parse\<close> are outside the
  repository: \<open>spawnSync\<close> maps binary, command and request to the child's result, and
  \<open>JSON_parse\<close> returns the parsed value or the detail of its \<open>SyntaxError\<close>. The value
  \<open>JNull\<close> is the \<open>null\<close> that tells the caller to use the local implementation.
\<close>

definition runKernel ::
  "(string \<Rightarrow> string + json) \<Rightarrow> (string \<Rightarrow> string \<Rightarrow> json \<Rightarrow> spawn_result) \<Rightarrow>
   kernel_mode \<Rightarrow> string option \<Rightarrow> string \<Rightarrow> json \<Rightarrow> error + json" where
  "runKernel JSON_parse spawnSync mode found command inputObj =
     (case getKernel mode found of
        Inl e \<Rightarrow> Inl e
      | Inr k \<Rightarrow>
          if \<not> k_enabled k then Inr JNull
          else
            let res = spawnSync (case k_bin k of Some b \<Rightarrow> b | None \<Rightarrow> []) command inputObj in
            (case sp_error res of
               Some m \<Rightarrow> Inl (Error (''ecc-kernel spawn failed: '' @ m))
             | None \<Rightarrow>
                 let stdout = trim (sp_stdout res);
                     stderr = trim (sp_stderr res)
                 in
                   if sp_status res \<noteq> Some 0 then
                     Inl (Error (join (nl @ nl)
                       ([''ecc-kernel '' @ command @ '' failed (exit '' @ status_text (sp_status res) @ '')'']
                        @ (if stderr \<noteq> [] then [''stderr:'' @ nl @ stderr] else [])
                        @ (if stdout \<noteq> [] then [''stdout:'' @ nl @ stdout] else []))))
                   else if stdout = [] then Inr (JObj [])
                   else
                     (case JSON_parse stdout of
                        Inr v \<Rightarrow> Inr v
                      | Inl detail \<Rightarrow>
                          Inl (Error (''ecc-kernel returned non-JSON output ('' @ detail @ ''). Raw:'' @ nl
                                      @ take 2000 stdout)))))"

section \<open>Validators (scripts/ecc/validate.js)\<close>

text \<open>An entry \<open>{path, message}\<close> of an error list.\<close>

type_synonym verr = "string \<times> string"

fun isObj :: "json \<Rightarrow> bool" where
  "isObj (JObj kvs) = True"
| "isObj _ = False"

fun isStr :: "json \<Rightarrow> bool" where
  "isStr (JStr s) = True"
| "isStr _ = False"



fun isArray :: "json \<Rightarrow> bool" where
  "isArray (JArr xs) = True"
| "isArray _ = False"

definition pushErr :: "verr list \<Rightarrow> string \<Rightarrow> string \<Rightarrow> verr list" where
  "pushErr errors path message = errors @ [(path, message)]"

definition validateString :: "verr list \<Rightarrow> string \<Rightarrow> json \<Rightarrow> nat \<Rightarrow> verr list" where
  "validateString errors path v minLength =
     (case v of
        JStr s \<Rightarrow>
          (if length s < minLength
           then pushErr errors path (''expected string length >= '' @ string_of_nat minLength)
           else errors)
      | _ \<Rightarrow> pushErr errors path ''expected string'')"

text \<open>The loop \<open>for (let i = 0; i < v.length; i++) validateString(errors, `${path}[${i}]`, v[i])\<close>.\<close>

primrec validateStringItems :: "verr list \<Rightarrow> string \<Rightarrow> nat \<Rightarrow> json list \<Rightarrow> verr list" where
  "validateStringItems errors path i [] = errors"
| "validateStringItems errors path i (x # xs) =
     validateStringItems (validateString errors (path @ ''['' @ string_of_nat i @ '']'') x 1) path (Suc i) xs"

definition validateStringArray :: "verr list \<Rightarrow> string \<Rightarrow> json \<Rightarrow> nat \<Rightarrow> verr list" where
  "validateStringArray errors path v minItems =
     (case v of
        JArr xs \<Rightarrow>
          validateStringItems
            (if length xs < minItems
             then pushErr errors path (''expected array length >= '' @ string_of_nat minItems)
             else errors)
            path 0 xs
      | _ \<Rightarrow> pushErr errors path ''expected array'')"

definition throwIfErrors :: "verr list \<Rightarrow> string \<Rightarrow> error + unit" where
  "throwIfErrors errors label =
     (if errors = [] then Inr ()
      else Inl (Error (label @ '' failed:'' @ nl @
                       join nl (map (\<lambda>e. ''- '' @ fst e @ '': '' @ snd e) errors))))"

subsection \<open>validatePlan\<close>

text \<open>
  A \<open>Map\<close> keeps its keys in insertion order; \<open>set\<close> on a key it has replaces the value
  in place.
\<close>

fun map_set :: "'k \<Rightarrow> 'v \<Rightarrow> ('k \<times> 'v) list \<Rightarrow> ('k \<times> 'v) list" where
  "map_set k v [] = [(k, v)]"
| "map_set k v (kv # kvs) = (if fst kv = k then (k, v) # kvs else kv # map_set k v kvs)"

definition map_has :: "('k \<times> 'v) list \<Rightarrow> 'k \<Rightarrow> bool" where
  "map_has m k = (k \<in> fst ` set m)"

text \<open>The first loop over \<open>plan.tasks\<close>: field checks and duplicate ids (\<open>ids\<close> is the \<open>Set\<close>).\<close>

definition task_base :: "nat \<Rightarrow> string" where
  "task_base i = ''$.tasks['' @ string_of_nat i @ '']''"

text \<open>The field checks of one task object, from \<open>validateString(errors, `${base}.id`, t.id)\<close> on.\<close>

definition validateTaskFields :: "verr list \<Rightarrow> string \<Rightarrow> json \<Rightarrow> verr list" where
  "validateTaskFields errors base t =
     (let e1 = validateString errors (base @ ''.id'') (jget t ''id'') 1;
          e2 = validateString e1 (base @ ''.title'') (jget t ''title'') 1;
          e3 = (if jget t ''kind'' \<noteq> JStr ''patch''
                then pushErr e2 (base @ ''.kind'') (''expected '' @ dq @ ''patch'' @ dq)
                else e2);
          e4 = validateStringArray e3 (base @ ''.dependsOn'')
                 (if truthy (jget t ''dependsOn'') then jget t ''dependsOn'' else JArr []) 0;
          e5 = validateStringArray e4 (base @ ''.allowedPathPrefixes'') (jget t ''allowedPathPrefixes'') 1
      in validateString e5 (base @ ''.prompt'') (jget t ''prompt'') 1)"

definition duplicateCheck :: "verr list \<Rightarrow> string \<Rightarrow> json \<Rightarrow> json set \<Rightarrow> verr list" where
  "duplicateCheck errors base t ids =
     (if jget t ''id'' \<in> ids then pushErr errors (base @ ''.id'') ''duplicate task id'' else errors)"

primrec validateTasks :: "json list \<Rightarrow> nat \<Rightarrow> json set \<Rightarrow> verr list \<Rightarrow> verr list" where
  "validateTasks [] i ids errors = errors"
| "validateTasks (t # ts) i ids errors =
     (if \<not> isObj t then validateTasks ts (Suc i) ids (pushErr errors (task_base i) ''expected object'')
      else if isStr (jget t ''id'')
      then validateTasks ts (Suc i) (insert (jget t ''id'') ids)
             (duplicateCheck (validateTaskFields errors (task_base i) t) (task_base i) t ids)
      else validateTasks ts (Suc i) ids (validateTaskFields errors (task_base i) t))"

text \<open>\<open>tasksById\<close>: the tasks that are objects with a string id, by id.\<close>

primrec buildTasksById :: "json list \<Rightarrow> (json \<times> json) list \<Rightarrow> (json \<times> json) list" where
  "buildTasksById [] tasksById = tasksById"
| "buildTasksById (t # ts) tasksById =
     buildTasksById ts
       (if isObj t \<and> isStr (jget t ''id'') then map_set (jget t ''id'') t tasksById else tasksById)"

text \<open>\<open>Array.isArray(t.dependsOn) ? t.dependsOn : []\<close>\<close>

definition deps_of :: "json \<Rightarrow> json list" where
  "deps_of t = (case jget t ''dependsOn'' of JArr ds \<Rightarrow> ds | _ \<Rightarrow> [])"

primrec checkDeps :: "(json \<times> json) list \<Rightarrow> nat \<Rightarrow> nat \<Rightarrow> json list \<Rightarrow> verr list \<Rightarrow> verr list" where
  "checkDeps tasksById i j [] errors = errors"
| "checkDeps tasksById i j (dep # deps) errors =
     checkDeps tasksById i (Suc j) deps
       (if \<not> map_has tasksById dep
        then pushErr errors (''$.tasks['' @ string_of_nat i @ ''].dependsOn['' @ string_of_nat j @ '']'')
               ''unknown task id''
        else errors)"

primrec checkRefs :: "(json \<times> json) list \<Rightarrow> nat \<Rightarrow> json list \<Rightarrow> verr list \<Rightarrow> verr list" where
  "checkRefs tasksById i [] errors = errors"
| "checkRefs tasksById i (t # ts) errors =
     (if \<not> isObj t \<or> \<not> isStr (jget t ''id'') then checkRefs tasksById (Suc i) ts errors
      else checkRefs tasksById (Suc i) ts (checkDeps tasksById i 0 (deps_of t) errors))"

text \<open>
  Cycle detection. The closure \<open>dfs\<close> mutates the two sets and the error list; here they
  are the state it passes on. \<open>dfs_each\<close> is the loop \<open>for (const dep of deps) dfs(dep)\<close>,
  and the loop over \<open>tasksById.keys()\<close>. (A \<open>Set\<close> compares arrays and objects by
  reference; such values are never keys of \<open>tasksById\<close>, so \<open>dfs\<close> on them only moves
  them to \<open>visited\<close> and reports nothing, whichever equality is used.)
\<close>

record dfs_state =
  visiting :: "json set"
  visited :: "json set"
  errs :: "verr list"

function (sequential) dfs :: "(json \<times> json) list \<Rightarrow> json \<Rightarrow> dfs_state \<Rightarrow> dfs_state"
  and dfs_each :: "(json \<times> json) list \<Rightarrow> json list \<Rightarrow> dfs_state \<Rightarrow> dfs_state"
where
  "dfs tasksById v st =
     (if v \<in> visited st then st
      else if v \<in> visiting st
      then st\<lparr>errs := pushErr (errs st) ''$.tasks'' (''cycle detected at task '' @ dq @ js_String v @ dq)\<rparr>
      else
        (case map_of tasksById v of
           Some t \<Rightarrow>
             (let st2 = dfs_each tasksById (deps_of t) (st\<lparr>visiting := insert v (visiting st)\<rparr>)
              in st2\<lparr>visiting := visiting st2 - {v}, visited := insert v (visited st2)\<rparr>)
         | None \<Rightarrow>
             (let st2 = st\<lparr>visiting := insert v (visiting st)\<rparr>
              in st2\<lparr>visiting := visiting st2 - {v}, visited := insert v (visited st2)\<rparr>)))"
| "dfs_each tasksById [] st = st"
| "dfs_each tasksById (d # ds) st = dfs_each tasksById ds (dfs tasksById d st)"
  by pat_completeness auto

lemma dfs_visiting_dom:
  "dfs_dfs_each_dom (Inl (tb, v, st)) \<Longrightarrow> visiting (dfs tb v st) = visiting st"
  "dfs_dfs_each_dom (Inr (tb, ds, st)) \<Longrightarrow> visiting (dfs_each tb ds st) = visiting st"
proof (induction tb v st and tb ds st rule: dfs_dfs_each.pinduct)
  case (1 tb v st)
  then show ?case
    by (auto simp: dfs.psimps Let_def split: option.splits)
next
  case (2 tb st)
  then show ?case by (simp add: dfs_each.psimps)
next
  case (3 tb d ds st)
  then show ?case by (simp add: dfs_each.psimps)
qed

termination dfs
proof (relation "(\<lambda>x. case x of Inl (tb, v, st) \<Rightarrow> card (fst ` set tb - visiting st)
                          | Inr (tb, ds, st) \<Rightarrow> card (fst ` set tb - visiting st))
                 <*mlex*> measure (\<lambda>x. case x of Inl (tb, v, st) \<Rightarrow> 0 | Inr (tb, ds, st) \<Rightarrow> Suc (length ds))"
    , goal_cases)
  case 1
  then show ?case by (simp add: wf_mlex)
next
  case (2 tb v st t)
  then have "v \<in> fst ` set tb" by (metis map_of_eq_None_iff option.distinct(1))
  with 2 have "card (fst ` set tb - insert v (visiting st)) < card (fst ` set tb - visiting st)"
    by (intro psubset_card_mono) auto
  then show ?case by (simp add: mlex_less)
next
  case (3 tb d ds st)
  then show ?case by (simp add: mlex_leq)
next
  case (4 tb d ds st)
  then show ?case using dfs_visiting_dom(1)[of tb d st] by (simp add: mlex_leq)
qed

declare dfs.simps [simp del]

definition validatePlan :: "json \<Rightarrow> verr list" where
  "validatePlan plan =
     (if \<not> isObj plan then pushErr [] ''$'' ''expected object''
      else
        let e1 = (if jget plan ''version'' \<noteq> JNum 1 then pushErr [] ''$.version'' ''expected 1'' else []);
            e2 = validateString e1 ''$.intent'' (jget plan ''intent'') 1
        in
          (case jget plan ''tasks'' of
             JArr tasks \<Rightarrow>
               let e3 = (if length tasks < 1 then pushErr e2 ''$.tasks'' ''expected at least 1 task'' else e2);
                   e4 = validateTasks tasks 0 {} e3;
                   tasksById = buildTasksById tasks [];
                   e5 = checkRefs tasksById 0 tasks e4
               in errs (dfs_each tasksById (map fst tasksById)
                          \<lparr>visiting = {}, visited = {}, errs = e5\<rparr>)
           | _ \<Rightarrow> pushErr e2 ''$.tasks'' ''expected array''))"

subsection \<open>What a valid plan is, in the words of the specification\<close>

fun nonempty_str :: "json \<Rightarrow> bool" where
  "nonempty_str (JStr s) = (s \<noteq> [])"
| "nonempty_str _ = False"

text \<open>An array of at least \<open>n\<close> non-empty strings.\<close>

fun str_array :: "nat \<Rightarrow> json \<Rightarrow> bool" where
  "str_array n (JArr xs) = (n \<le> length xs \<and> list_all nonempty_str xs)"
| "str_array n _ = False"

definition task_id :: "json \<Rightarrow> json" where
  "task_id t = jget t ''id''"

text \<open>
  A task as section 3 of the specification describes it: an object with a non-empty
  \<open>id\<close>, \<open>title\<close> and \<open>prompt\<close>, \<open>kind = "patch"\<close>, \<open>dependsOn\<close> a list of ids (or left
  out) and a non-empty list of \<open>allowedPathPrefixes\<close>.
\<close>

definition task_wf :: "json \<Rightarrow> bool" where
  "task_wf t =
     (isObj t \<and> nonempty_str (jget t ''id'') \<and> nonempty_str (jget t ''title'')
      \<and> jget t ''kind'' = JStr ''patch''
      \<and> (truthy (jget t ''dependsOn'') \<longrightarrow> str_array 0 (jget t ''dependsOn''))
      \<and> str_array 1 (jget t ''allowedPathPrefixes'')
      \<and> nonempty_str (jget t ''prompt''))"

definition plan_tasks :: "json \<Rightarrow> json list" where
  "plan_tasks plan = (case jget plan ''tasks'' of JArr ts \<Rightarrow> ts | _ \<Rightarrow> [])"

text \<open>The dependency graph over task ids: an edge from a task's id to each of its \<open>dependsOn\<close>.\<close>

definition dep_edges :: "json list \<Rightarrow> (json \<times> json) set" where
  "dep_edges tasks = set (concat (map (\<lambda>t. map (\<lambda>d. (task_id t, d)) (deps_of t)) tasks))"

definition deps_resolve :: "json list \<Rightarrow> bool" where
  "deps_resolve tasks = list_all (\<lambda>t. list_all (\<lambda>d. d \<in> task_id ` set tasks) (deps_of t)) tasks"

text \<open>The five conditions of claim C1, read on the plan as it is given.\<close>

definition claimed_plan_ok :: "json \<Rightarrow> bool" where
  "claimed_plan_ok plan =
     (jget plan ''version'' = JNum 1
      \<and> nonempty_str (jget plan ''intent'')
      \<and> distinct (map task_id (plan_tasks plan))
      \<and> deps_resolve (plan_tasks plan)
      \<and> acyclic (dep_edges (plan_tasks plan)))"

text \<open>The conditions \<open>validatePlan\<close> checks.\<close>

definition plan_ok :: "json \<Rightarrow> bool" where
  "plan_ok plan =
     (jget plan ''version'' = JNum 1
      \<and> nonempty_str (jget plan ''intent'')
      \<and> isArray (jget plan ''tasks'')
      \<and> plan_tasks plan \<noteq> []
      \<and> list_all task_wf (plan_tasks plan)
      \<and> distinct (map task_id (plan_tasks plan))
      \<and> deps_resolve (plan_tasks plan)
      \<and> acyclic (dep_edges (plan_tasks plan)))"

text \<open>The graph \<open>dfs\<close> walks: from a key of \<open>tasksById\<close> to each dependency of its task.\<close>

definition dfs_edges :: "(json \<times> json) list \<Rightarrow> (json \<times> json) set" where
  "dfs_edges tasksById = {(k, d). \<exists>t. map_of tasksById k = Some t \<and> d \<in> set (deps_of t)}"

text \<open>Invariants of the finished vertices during the search.\<close>

definition closed_under :: "(json \<times> json) set \<Rightarrow> json set \<Rightarrow> bool" where
  "closed_under E V = (\<forall>a b. a \<in> V \<and> (a, b) \<in> E \<longrightarrow> b \<in> V)"

definition cycle_free_on :: "(json \<times> json) set \<Rightarrow> json set \<Rightarrow> bool" where
  "cycle_free_on E V = (\<forall>a. a \<in> V \<longrightarrow> (a, a) \<notin> E\<^sup>+)"

section \<open>Patch ownership and application (scripts/ecc/diff.js)\<close>

text \<open>What \<open>runGit\<close> returns, as far as its callers read it.\<close>

record git_result =
  g_ok :: bool
  g_stdout :: string
  g_stderr :: string

definition isAsciiLetter :: "char \<Rightarrow> bool" where
  "isAsciiLetter c = ((65 \<le> (of_char c :: nat) \<and> (of_char c :: nat) \<le> 90)
                      \<or> (97 \<le> (of_char c :: nat) \<and> (of_char c :: nat) \<le> 122))"

text \<open>The test \<open>/^[A-Za-z]:\//\<close>\<close>

definition isDriveAbsolute :: "string \<Rightarrow> bool" where
  "isDriveAbsolute s =
     (case s of c # d # e # rest \<Rightarrow> isAsciiLetter c \<and> d = CHR '':'' \<and> e = CHR ''/'' | _ \<Rightarrow> False)"

definition str_includes :: "string \<Rightarrow> string \<Rightarrow> bool" where
  "str_includes s t = sublist t s"

definition normalizeRepoPath :: "string \<Rightarrow> string option" where
  "normalizeRepoPath p =
     (let posix = backslashToSlash p in
      if startsWith posix ''/'' \<or> isDriveAbsolute posix then None
      else
        let norm = posix_normalize posix in
        if norm = ''.'' \<or> startsWith norm ''../'' \<or> str_includes norm ''/../'' then None
        else Some norm)"

text \<open>\<open>text.split(/\r?\n/)\<close>: cut at every LF, a CR just before the LF going with it.\<close>

definition stripCR :: "string \<Rightarrow> string" where
  "stripCR s = (if s \<noteq> [] \<and> last s = CHR 0x0D then butlast s else s)"

primrec splitLinesFrom :: "string \<Rightarrow> string \<Rightarrow> string list" where
  "splitLinesFrom cur [] = [cur]"
| "splitLinesFrom cur (x # xs) =
     (if x = CHR 0x0A then stripCR cur # splitLinesFrom [] xs else splitLinesFrom (cur @ [x]) xs)"

definition splitLines :: "string \<Rightarrow> string list" where
  "splitLines s = splitLinesFrom [] s"

text \<open>
  The match of \<open>/^diff --git a\/(.+?) b\/(.+)$/\<close> on a line. A dot matches any character
  but a line terminator; the first group is lazy, so it is the shortest non-empty text
  after which \<open> b/\<close> and a non-empty rest of the line follow. \<open>matchLazy a s\<close> tries the
  first group \<open>a\<close> extended by one character of \<open>s\<close> after another.
\<close>

definition isLineTerminator :: "char \<Rightarrow> bool" where
  "isLineTerminator c = (c = CHR 0x0A \<or> c = CHR 0x0D)"

primrec matchLazy :: "string \<Rightarrow> string \<Rightarrow> (string \<times> string) option" where
  "matchLazy a [] = None"
| "matchLazy a (c # cs) =
     (if isLineTerminator c then None
      else if startsWith cs '' b/'' \<and> drop 3 cs \<noteq> [] \<and> \<not> list_ex isLineTerminator (drop 3 cs)
      then Some (a @ [c], drop 3 cs)
      else matchLazy (a @ [c]) cs)"

definition matchDiffHeader :: "string \<Rightarrow> (string \<times> string) option" where
  "matchDiffHeader line =
     (if startsWith line ''diff --git a/'' then matchLazy [] (drop 13 line) else None)"

text \<open>
  The file a line names, if the line is a section header: the body of the loop of
  \<open>touchedFilesFromUnifiedDiff\<close> up to \<open>const file = ...\<close>.
\<close>

definition headerFile :: "string \<Rightarrow> string option" where
  "headerFile line =
     (if \<not> startsWith line ''diff --git '' then None
      else
        (case matchDiffHeader line of
           None \<Rightarrow> None
         | Some (aPath, bPath) \<Rightarrow> Some (if bPath = ''/dev/null'' then aPath else bPath)))"

record touched_file =
  tf_path :: string
  tf_invalid :: bool

primrec touchedLoop :: "string list \<Rightarrow> string set \<Rightarrow> touched_file list \<Rightarrow> touched_file list" where
  "touchedLoop [] seen files = files"
| "touchedLoop (line # lines) seen files =
     (case headerFile line of
        None \<Rightarrow> touchedLoop lines seen files
      | Some file \<Rightarrow>
          (case normalizeRepoPath file of
             None \<Rightarrow> touchedLoop lines seen (files @ [\<lparr>tf_path = file, tf_invalid = True\<rparr>])
           | Some normalized \<Rightarrow>
               if normalized = [] then touchedLoop lines seen (files @ [\<lparr>tf_path = file, tf_invalid = True\<rparr>])
               else if normalized \<in> seen then touchedLoop lines seen files
               else touchedLoop lines (insert normalized seen)
                      (files @ [\<lparr>tf_path = normalized, tf_invalid = False\<rparr>])))"

definition touchedFilesFromUnifiedDiff :: "string \<Rightarrow> touched_file list" where
  "touchedFilesFromUnifiedDiff patchText = touchedLoop (splitLines patchText) {} []"

text \<open>
  \<open>allowed\<close> of \<open>ensureOwned\<close>: the prefixes with backslashes replaced, a \<open>/\<close> appended
  unless one ends the prefix, and the empty strings filtered out.
\<close>

definition withTrailingSlash :: "string \<Rightarrow> string" where
  "withTrailingSlash p = (if endsWith p ''/'' then p else p @ ''/'')"

definition allowedPrefixes :: "json \<Rightarrow> string list" where
  "allowedPrefixes allowedPathPrefixes =
     filter (\<lambda>p. p \<noteq> [])
       (map withTrailingSlash
          (map (\<lambda>p. backslashToSlash (if truthy p then js_String p else []))
             (case allowedPathPrefixes of JArr ps \<Rightarrow> ps | _ \<Rightarrow> [])))"

text \<open>\<open>allowed.some(prefix => f.path === prefix.slice(0, -1) || f.path.startsWith(prefix))\<close>\<close>

definition pathAllowed :: "string list \<Rightarrow> string \<Rightarrow> bool" where
  "pathAllowed allowed path = list_ex (\<lambda>prefix. path = butlast prefix \<or> startsWith path prefix) allowed"

primrec collectViolations :: "string list \<Rightarrow> touched_file list \<Rightarrow> string list \<Rightarrow> string list" where
  "collectViolations allowed [] violations = violations"
| "collectViolations allowed (f # fs) violations =
     (if tf_invalid f
      then collectViolations allowed fs (violations @ [''invalid path in patch: '' @ tf_path f])
      else if \<not> pathAllowed allowed (tf_path f)
      then collectViolations allowed fs (violations @ [''unauthorized path: '' @ tf_path f])
      else collectViolations allowed fs violations)"

definition ensureOwned :: "touched_file list \<Rightarrow> json \<Rightarrow> error + unit" where
  "ensureOwned touchedFiles allowedPathPrefixes =
     (let allowed = allowedPrefixes allowedPathPrefixes in
      if allowed = [] then Inl (Error ''allowedPathPrefixes is empty'')
      else
        let violations = collectViolations allowed touchedFiles [] in
        if violations \<noteq> []
        then Inl (Error (''patch ownership check failed:'' @ nl @ ''- '' @ join (nl @ ''- '') violations))
        else Inr ())"

text \<open>
  \<open>applyPatch\<close>. \<open>kernelOut\<close> is what \<open>runKernel('patch.apply', ...)\<close> returned or raised,
  \<open>patchText\<close> the content of the patch file, and \<open>w\<close> the state of the machine when the
  local path starts; \<open>runGit\<close> is git, as in \<open>git.js\<close>. The result is the raised error or
  the \<open>touchedFiles\<close> of the returned object, with the state left behind.
\<close>

definition applyPatch ::
  "(string list \<Rightarrow> 'w \<Rightarrow> git_result \<times> 'w) \<Rightarrow> error + json \<Rightarrow> string \<Rightarrow> string \<Rightarrow> string \<Rightarrow> json \<Rightarrow> 'w
   \<Rightarrow> (error + json) \<times> 'w" where
  "applyPatch runGit kernelOut patchText worktreePath patchPath allowedPathPrefixes w =
     (case kernelOut of
        Inl e \<Rightarrow> (Inl e, w)
      | Inr k \<Rightarrow>
          if truthy k \<and> isArray (jget k ''touchedFiles'') then (Inr (jget k ''touchedFiles''), w)
          else if trim patchText = [] then (Inr (JArr []), w)
          else
            let touched = touchedFilesFromUnifiedDiff patchText in
            if touched = []
            then (Inl (Error (''patch has content but no '' @ dq @ ''diff --git'' @ dq
                              @ '' headers (not a unified diff?)'')), w)
            else
              (case ensureOwned touched allowedPathPrefixes of
                 Inl e \<Rightarrow> (Inl e, w)
               | Inr u \<Rightarrow>
                   (case runGit [''-C'', worktreePath, ''apply'', ''--check'', patchPath] w of
                      (res, w1) \<Rightarrow>
                        if \<not> g_ok res
                        then (Inl (Error (if g_stderr res \<noteq> [] then g_stderr res
                                          else ''git apply --check failed'')), w1)
                        else
                          (case runGit [''-C'', worktreePath, ''apply'', patchPath] w1 of
                             (res2, w2) \<Rightarrow>
                               if \<not> g_ok res2
                               then (Inl (Error (if g_stderr res2 \<noteq> [] then g_stderr res2
                                                 else ''git apply failed'')), w2)
                               else (Inr (JArr (map (\<lambda>t. JStr (tf_path t)) touched)), w2)))))"



subsection \<open>Ownership as the specification words it\<close>

text \<open>
  Section 4.2, step 4: each allowed prefix is made to end with a separator, and a path
  is authorised iff it equals the prefix without that separator or starts with the
  normalised prefix.
\<close>

definition specAuthorized :: "string list \<Rightarrow> string \<Rightarrow> bool" where
  "specAuthorized ps path =
     list_ex (\<lambda>p. path = butlast (withTrailingSlash p) \<or> prefix (withTrailingSlash p) path) ps"

section \<open>Working copies (scripts/ecc/git.js)\<close>

text \<open>
  Git and the file system are outside the engine. \<open>sys_runGit\<close> is \<open>runGit\<close>: the
  arguments and the state of the machine give the result and the state left behind;
  \<open>sys_exists\<close> is \<open>fs.existsSync\<close>, \<open>sys_mkdir\<close> is \<open>fs.mkdirSync\<close> with \<open>recursive\<close>,
  \<open>sys_cwd\<close> the working directory against which relative paths resolve.
\<close>

record 'g sys =
  sys_runGit :: "string list \<Rightarrow> 'g \<Rightarrow> git_result \<times> 'g"
  sys_exists :: "'g \<Rightarrow> string \<Rightarrow> bool"
  sys_mkdir :: "string \<Rightarrow> 'g \<Rightarrow> 'g"
  sys_cwd :: string

text \<open>\<open>path.dirname\<close> and \<open>path.basename\<close> of the runtime.\<close>

definition dirname :: "string \<Rightarrow> string" where
  "dirname p =
     (if p = [] then ''.''
      else
        let r = dropWhile (\<lambda>c. c \<noteq> CHR ''/'') (dropWhile (\<lambda>c. c = CHR ''/'') (rev (tl p))) in
        if r = [] then (if hd p = CHR ''/'' then ''/'' else ''.'')
        else if hd p = CHR ''/'' \<and> length r = 1 then ''//''
        else hd p # rev (tl r))"

definition basename :: "string \<Rightarrow> string" where
  "basename p = rev (takeWhile (\<lambda>c. c \<noteq> CHR ''/'') (dropWhile (\<lambda>c. c = CHR ''/'') (rev p)))"



definition branchExists :: "'g sys \<Rightarrow> string \<Rightarrow> string \<Rightarrow> 'g \<Rightarrow> bool \<times> 'g" where
  "branchExists sys repoRoot branch g =
     (case sys_runGit sys [''-C'', repoRoot, ''show-ref'', ''--verify'', ''--quiet'', ''refs/heads/'' @ branch] g of
        (res, g') \<Rightarrow> (g_ok res, g'))"

definition ensureBranchAt :: "'g sys \<Rightarrow> string \<Rightarrow> string \<Rightarrow> string \<Rightarrow> 'g \<Rightarrow> (error + unit) \<times> 'g" where
  "ensureBranchAt sys repoRoot branch baseSha g =
     (case branchExists sys repoRoot branch g of
        (True, g') \<Rightarrow> (Inr (), g')
      | (False, g') \<Rightarrow>
          (case sys_runGit sys [''-C'', repoRoot, ''branch'', branch, baseSha] g' of
             (res, g'') \<Rightarrow>
               (if \<not> g_ok res
                then Inl (Error (if g_stderr res \<noteq> [] then g_stderr res
                                 else ''git branch '' @ branch @ '' '' @ baseSha @ '' failed''))
                else Inr (), g'')))"

text \<open>\<open>tmpdir\<close> is \<open>os.tmpdir()\<close>; \<open>worktreeRoot\<close> is \<open>None\<close> when the caller gave none.\<close>

definition defaultWorktreePath :: "string \<Rightarrow> string \<Rightarrow> string \<Rightarrow> string option \<Rightarrow> string" where
  "defaultWorktreePath tmpdir repoRoot runId worktreeRoot =
     path_join [(case worktreeRoot of
                   Some r \<Rightarrow> if r \<noteq> [] then r else path_join [tmpdir, ''ecc-worktrees'']
                 | None \<Rightarrow> path_join [tmpdir, ''ecc-worktrees'']),
                basename repoRoot, runId]"

definition assertExternalWorktreePath :: "string \<Rightarrow> string \<Rightarrow> string \<Rightarrow> error + unit" where
  "assertExternalWorktreePath cwd repoRoot worktreePath =
     (let rel = posix_relative cwd repoRoot worktreePath;
          isInside = (rel \<noteq> [] \<and> \<not> startsWith rel ''..'' \<and> \<not> isAbsolute rel)
      in
        if isInside
        then Inl (Error (''Refusing to create worktree inside repo root (would recurse): repoRoot=''
                         @ repoRoot @ '' worktreePath='' @ worktreePath))
        else Inr ())"

definition isGitWorktree :: "'g sys \<Rightarrow> string \<Rightarrow> 'g \<Rightarrow> bool \<times> 'g" where
  "isGitWorktree sys dir g =
     (if \<not> sys_exists sys g dir then (False, g)
      else
        (case sys_runGit sys [''-C'', dir, ''rev-parse'', ''--is-inside-work-tree''] g of
           (res, g') \<Rightarrow> (g_ok res \<and> trim (g_stdout res) = ''true'', g')))"

definition ensureWorktree ::
  "'g sys \<Rightarrow> string \<Rightarrow> string \<Rightarrow> string \<Rightarrow> string \<Rightarrow> 'g \<Rightarrow> (error + string) \<times> 'g" where
  "ensureWorktree sys repoRoot worktreePath branch baseSha g =
     (case assertExternalWorktreePath (sys_cwd sys) repoRoot worktreePath of
        Inl e \<Rightarrow> (Inl e, g)
      | Inr u \<Rightarrow>
          (case ensureBranchAt sys repoRoot branch baseSha g of
             (Inl e, g1) \<Rightarrow> (Inl e, g1)
           | (Inr u', g1) \<Rightarrow>
               if sys_exists sys g1 worktreePath then
                 (case isGitWorktree sys worktreePath g1 of
                    (False, g2) \<Rightarrow>
                      (Inl (Error (''Worktree path exists but is not a git worktree: '' @ worktreePath)), g2)
                  | (True, g2) \<Rightarrow> (Inr worktreePath, g2))
               else
                 (case sys_runGit sys [''-C'', repoRoot, ''worktree'', ''add'', worktreePath, branch]
                         (sys_mkdir sys (dirname worktreePath) g1) of
                    (res, g3) \<Rightarrow>
                      (if \<not> g_ok res
                       then Inl (Error (if g_stderr res \<noteq> [] then g_stderr res
                                        else ''git worktree add failed: '' @ worktreePath))
                       else Inr worktreePath, g3))))"

definition removeWorktree :: "'g sys \<Rightarrow> string \<Rightarrow> string \<Rightarrow> 'g \<Rightarrow> (error + unit) \<times> 'g" where
  "removeWorktree sys repoRoot worktreePath g =
     (case sys_runGit sys [''-C'', repoRoot, ''worktree'', ''remove'', ''--force'', worktreePath] g of
        (res, g') \<Rightarrow>
          (if \<not> g_ok res
           then Inl (Error (if g_stderr res \<noteq> [] then g_stderr res
                            else ''git worktree remove failed: '' @ worktreePath))
           else Inr (), g'))"

subsection \<open>Containment, as the specification words it\<close>

text \<open>
  A path resolves to inside the repository root when, both resolved, the root's
  segments are a proper prefix of the path's segments.
\<close>

definition resolvesInside :: "string \<Rightarrow> string \<Rightarrow> string \<Rightarrow> bool" where
  "resolvesInside cwd repoRoot p =
     strict_prefix (resolveSegments cwd repoRoot) (resolveSegments cwd p)"

section \<open>Verify runner (scripts/ecc/verify.js)\<close>

text \<open>
  Modelled from the spec: \<open>scripts/ecc/json.js\<close> (\<open>readJson\<close>, \<open>writeJson\<close>, \<open>writeText\<close>)
  is not among the sources. The spec has every artifact of a run as a JSON document or
  a text file under the project's state directory, written whole and read back. So a path
  holds text or a JSON document; a write replaces what the path held and does not fail
  (directories and permissions are not part of the model).
\<close>

datatype content = Text string | Json json

type_synonym fs = "string \<rightharpoonup> content"

definition writeJson :: "string \<Rightarrow> json \<Rightarrow> fs \<Rightarrow> fs" where
  "writeJson filePath data files = files(filePath \<mapsto> Json data)"

definition writeText :: "string \<Rightarrow> string \<Rightarrow> fs \<Rightarrow> fs" where
  "writeText filePath text files = files(filePath \<mapsto> Text text)"

definition existsSync :: "fs \<Rightarrow> string \<Rightarrow> bool" where
  "existsSync files p = (files p \<noteq> None)"

subsection \<open>validateVerifySummary (scripts/ecc/validate.js)\<close>



subsection \<open>Commands to run\<close>









subsection \<open>runVerify\<close>









subsection \<open>Well-formed commands and summary entries\<close>



subsection \<open>What running the commands means\<close>




section \<open>Run store (scripts/ecc/project.js, scripts/ecc/json.js, scripts/ecc/run.js)\<close>

definition eccDir :: "string \<Rightarrow> string" where
  "eccDir projectRoot = path_join [projectRoot, ''.ecc'']"



definition runsDir :: "string \<Rightarrow> string" where
  "runsDir projectRoot = path_join [eccDir projectRoot, ''runs'']"




text \<open>The assignment \<open>o.k = v\<close> on an object.\<close>

fun jset :: "json \<Rightarrow> string \<Rightarrow> json \<Rightarrow> json" where
  "jset (JObj kvs) k v = JObj (map_set k v kvs)"
| "jset other k v = other"

record run_paths =
  rp_root :: string
  rp_intentTxt :: string
  rp_runJson :: string
  rp_planJson :: string
  rp_planMd :: string
  rp_patchesDir :: string
  rp_applyDir :: string
  rp_applyJson :: string
  rp_verifyDir :: string
  rp_verifySummaryJson :: string
  rp_reportMd :: string

definition runRoot :: "string \<Rightarrow> string \<Rightarrow> string" where
  "runRoot projectRoot runId = path_join [runsDir projectRoot, runId]"

definition runPaths :: "string \<Rightarrow> string \<Rightarrow> run_paths" where
  "runPaths projectRoot runId =
     (let root = runRoot projectRoot runId in
      \<lparr>rp_root = root,
       rp_intentTxt = path_join [root, ''intent.txt''],
       rp_runJson = path_join [root, ''run.json''],
       rp_planJson = path_join [root, ''plan.json''],
       rp_planMd = path_join [root, ''plan.md''],
       rp_patchesDir = path_join [root, ''patches''],
       rp_applyDir = path_join [root, ''apply''],
       rp_applyJson = path_join [root, ''apply'', ''applied.json''],
       rp_verifyDir = path_join [root, ''verify''],
       rp_verifySummaryJson = path_join [root, ''verify'', ''summary.json''],
       rp_reportMd = path_join [root, ''report.md'']\<rparr>)"

subsection \<open>validateRun (scripts/ecc/validate.js)\<close>

text \<open>The check \<open>if (x === undefined) 'missing' else if (!isStr(x)) 'expected string'\<close>.\<close>

definition validatePresentString :: "verr list \<Rightarrow> string \<Rightarrow> json \<Rightarrow> verr list" where
  "validatePresentString errors path v =
     (if v = JUndefined then pushErr errors path ''missing''
      else if \<not> isStr v then pushErr errors path ''expected string''
      else errors)"

definition validateRunBase :: "verr list \<Rightarrow> json \<Rightarrow> verr list" where
  "validateRunBase errors base =
     (if \<not> isObj base then pushErr errors ''$.base'' ''expected object''
      else
        validatePresentString
          (validatePresentString
             (validateString errors ''$.base.repoRoot'' (jget base ''repoRoot'') 1)
             ''$.base.branch'' (jget base ''branch''))
          ''$.base.sha'' (jget base ''sha''))"

definition validateRunWorktree :: "verr list \<Rightarrow> json \<Rightarrow> verr list" where
  "validateRunWorktree errors worktree =
     (if \<not> isObj worktree then pushErr errors ''$.worktree'' ''expected object''
      else
        validatePresentString
          (validatePresentString errors ''$.worktree.path'' (jget worktree ''path''))
          ''$.worktree.branch'' (jget worktree ''branch''))"

definition validateRunArtifacts :: "verr list \<Rightarrow> json \<Rightarrow> verr list" where
  "validateRunArtifacts errors artifacts =
     (if \<not> isObj artifacts then pushErr errors ''$.artifacts'' ''expected object''
      else
        validateString
          (validateString
             (validateString
                (validateString
                   (validateString
                      (validateString errors ''$.artifacts.planJson'' (jget artifacts ''planJson'') 1)
                      ''$.artifacts.planMd'' (jget artifacts ''planMd'') 1)
                   ''$.artifacts.patchesDir'' (jget artifacts ''patchesDir'') 1)
                ''$.artifacts.applyJson'' (jget artifacts ''applyJson'') 1)
             ''$.artifacts.verifyDir'' (jget artifacts ''verifyDir'') 1)
          ''$.artifacts.reportMd'' (jget artifacts ''reportMd'') 1)"

definition runStatuses :: "json list" where
  "runStatuses = [JStr ''planned'', JStr ''executing'', JStr ''verifying'', JStr ''succeeded'', JStr ''failed'']"

definition validateRun :: "json \<Rightarrow> verr list" where
  "validateRun run =
     (if \<not> isObj run then pushErr [] ''$'' ''expected object''
      else
        let e1 = (if jget run ''version'' \<noteq> JNum 1 then pushErr [] ''$.version'' ''expected 1'' else []);
            e2 = validateString e1 ''$.runId'' (jget run ''runId'') 1;
            e3 = validateString e2 ''$.intent'' (jget run ''intent'') 1;
            e4 = (if jget run ''backend'' \<notin> set [JStr ''codex'', JStr ''claude'']
                  then pushErr e3 ''$.backend'' (''expected '' @ dq @ ''codex'' @ dq @ '' or '' @ dq @ ''claude'' @ dq)
                  else e3);
            e5 = validateStringArray e4 ''$.packs'' (jget run ''packs'') 1;
            e6 = (if jget run ''status'' \<notin> set runStatuses then pushErr e5 ''$.status'' ''invalid status'' else e5);
            e7 = validateString e6 ''$.startedAt'' (jget run ''startedAt'') 1;
            e8 = (if jget run ''endedAt'' \<noteq> JUndefined
                  then validateString e7 ''$.endedAt'' (jget run ''endedAt'') 1 else e7);
            e9 = validateRunBase e8 (jget run ''base'');
            e10 = validateRunWorktree e9 (jget run ''worktree'')
        in validateRunArtifacts e10 (jget run ''artifacts''))"

subsection \<open>Loading and saving a run\<close>




text \<open>\<open>initRun\<close>: the run as the plan stage creates it (the directories it makes are not files).\<close>

definition initRun ::
  "string \<Rightarrow> string \<Rightarrow> string \<Rightarrow> json \<Rightarrow> json \<Rightarrow> json \<Rightarrow> json \<Rightarrow> fs \<Rightarrow> (error + json) \<times> fs" where
  "initRun now projectRoot runId intent backend packs base files =
     (let paths = runPaths projectRoot runId in
      if existsSync files (rp_runJson paths) then (Inl (Error (''Run already exists: '' @ runId)), files)
      else
        let files1 = writeText (rp_intentTxt paths) (js_String intent @ nl) files;
            run = JObj [(''version'', JNum 1), (''runId'', JStr runId), (''intent'', intent),
                        (''backend'', backend), (''packs'', packs), (''status'', JStr ''planned''),
                        (''base'', JObj [(''repoRoot'', jget base ''repoRoot''), (''branch'', jget base ''branch''),
                                         (''sha'', jget base ''sha'')]),
                        (''worktree'', JObj [(''path'', JStr []), (''branch'', JStr (''ecc/'' @ runId))]),
                        (''artifacts'', JObj [(''planJson'', JStr (rp_planJson paths)),
                                              (''planMd'', JStr (rp_planMd paths)),
                                              (''patchesDir'', JStr (rp_patchesDir paths)),
                                              (''applyJson'', JStr (rp_applyJson paths)),
                                              (''verifyDir'', JStr (rp_verifyDir paths)),
                                              (''reportMd'', JStr (rp_reportMd paths))]),
                        (''startedAt'', JStr now)]
        in
          (case throwIfErrors (validateRun run) ''run'' of
             Inl e \<Rightarrow> (Inl e, files1)
           | Inr u \<Rightarrow> (Inr run, writeJson (rp_runJson paths) run files1)))"

section \<open>Initialisation (scripts/ecc/config.js, scripts/ecc/lock.js, scripts/ecc.js)\<close>

subsection \<open>validateConfig and validateLock (scripts/ecc/validate.js)\<close>





subsection \<open>The configuration file (scripts/ecc/config.js)\<close>




subsection \<open>The registry lock (scripts/ecc/lock.js)\<close>



subsection \<open>cmdInit (scripts/ecc.js)\<close>







section \<open>Exec stage (scripts/ecc/exec.js)\<close>

subsection \<open>validateApplyResult (scripts/ecc/validate.js)\<close>



subsection \<open>topoSortTasks\<close>


definition cycleError :: "json \<Rightarrow> error" where
  "cycleError v = Error (''cycle detected at task '' @ dq @ js_String v @ dq)"

definition missingTaskError :: error where
  "missingTaskError = Error (''Cannot read properties of undefined (reading '' @ sq @ ''dependsOn'' @ sq @ '')'')"

definition nullTaskError :: error where
  "nullTaskError = Error (''Cannot read properties of null (reading '' @ sq @ ''dependsOn'' @ sq @ '')'')"

record topo_state =
  ts_visiting :: "json set"
  ts_visited :: "json set"
  ts_out :: "json list"

function (sequential) visit :: "(json \<times> json) list \<Rightarrow> json \<Rightarrow> topo_state \<Rightarrow> error + topo_state"
  and visit_each :: "(json \<times> json) list \<Rightarrow> json list \<Rightarrow> topo_state \<Rightarrow> error + topo_state"
where
  "visit byId v st =
     (if v \<in> ts_visited st then Inr st
      else if v \<in> ts_visiting st
      then Inl (cycleError v)
      else
        (case map_of byId v of
           None \<Rightarrow> Inl missingTaskError
         | Some t \<Rightarrow>
             if t = JNull \<or> t = JUndefined
             then Inl nullTaskError
             else
               (case visit_each byId (deps_of t) (st\<lparr>ts_visiting := insert v (ts_visiting st)\<rparr>) of
                  Inl e \<Rightarrow> Inl e
                | Inr st2 \<Rightarrow>
                    Inr (st2\<lparr>ts_visiting := ts_visiting st2 - {v},
                              ts_visited := insert v (ts_visited st2),
                              ts_out := ts_out st2 @ [t]\<rparr>))))"
| "visit_each byId [] st = Inr st"
| "visit_each byId (d # ds) st =
     (case visit byId d st of
        Inl e \<Rightarrow> Inl e
      | Inr st' \<Rightarrow> visit_each byId ds st')"
  by pat_completeness auto


lemma visit_visiting_dom:
  "visit_visit_each_dom (Inl (byId, v, st)) \<Longrightarrow> visit byId v st = Inr st' \<Longrightarrow>
     ts_visiting st' = ts_visiting st"
  "visit_visit_each_dom (Inr (byId, ds, st)) \<Longrightarrow> visit_each byId ds st = Inr st' \<Longrightarrow>
     ts_visiting st' = ts_visiting st"
proof (induction byId v st and byId ds st arbitrary: st' and st' rule: visit_visit_each.pinduct)
  case (1 byId v st)
  note dom = "1.hyps"(1)
  note eq = "1.prems"
  show ?case
  proof (cases "v \<in> ts_visited st")
    case True
    then show ?thesis using eq by (simp add: visit.psimps[OF dom])
  next
    case nv: False
    show ?thesis
    proof (cases "v \<in> ts_visiting st")
      case True
      then show ?thesis using eq nv by (simp add: visit.psimps[OF dom])
    next
      case ng: False
      show ?thesis
      proof (cases "map_of byId v")
        case None
        then show ?thesis using eq nv ng by (simp add: visit.psimps[OF dom])
      next
        case (Some t)
        show ?thesis
        proof (cases "t = JNull \<or> t = JUndefined")
          case True
          then show ?thesis using eq nv ng Some by (simp add: visit.psimps[OF dom])
        next
          case nn: False
          show ?thesis
          proof (cases "visit_each byId (deps_of t) (st\<lparr>ts_visiting := insert v (ts_visiting st)\<rparr>)")
            case (Inl e)
            then show ?thesis using eq nv ng Some nn by (simp add: visit.psimps[OF dom])
          next
            case (Inr st2)
            have "ts_visiting st2 = insert v (ts_visiting st)"
              using "1.IH"[OF nv ng Some nn Inr] by simp
            moreover have "st' = st2\<lparr>ts_visiting := ts_visiting st2 - {v},
                              ts_visited := insert v (ts_visited st2),
                              ts_out := ts_out st2 @ [t]\<rparr>"
              using eq nv ng Some nn Inr by (simp add: visit.psimps[OF dom])
            ultimately show ?thesis using ng by auto
          qed
        qed
      qed
    qed
  qed
next
  case (2 byId st)
  then show ?case by (simp add: visit_each.psimps)
next
  case (3 byId d ds st)
  note dom = "3.hyps"(1)
  show ?case
  proof (cases "visit byId d st")
    case (Inl e)
    then show ?thesis using "3.prems" by (simp add: visit_each.psimps(2)[OF dom])
  next
    case (Inr s1)
    have a: "ts_visiting s1 = ts_visiting st" using "3.IH"(1)[OF Inr] .
    have "visit_each byId ds s1 = Inr st'" using "3.prems" Inr by (simp add: visit_each.psimps(2)[OF dom])
    then have "ts_visiting st' = ts_visiting s1" using "3.IH"(2)[OF Inr] by simp
    with a show ?thesis by simp
  qed
qed

termination visit
proof (relation "(\<lambda>x. case x of Inl (tb, v, st) \<Rightarrow> card (fst ` set tb - ts_visiting st)
                          | Inr (tb, ds, st) \<Rightarrow> card (fst ` set tb - ts_visiting st))
                 <*mlex*> measure (\<lambda>x. case x of Inl (tb, v, st) \<Rightarrow> 0 | Inr (tb, ds, st) \<Rightarrow> Suc (length ds))"
    , goal_cases)
  case 1
  then show ?case by (simp add: wf_mlex)
next
  case (2 tb v st t)
  then have "v \<in> fst ` set tb" by (metis map_of_eq_None_iff option.distinct(1))
  with 2 have "card (fst ` set tb - insert v (ts_visiting st)) < card (fst ` set tb - ts_visiting st)"
    by (intro psubset_card_mono) auto
  then show ?case by (simp add: mlex_less)
next
  case (3 tb d ds st)
  then show ?case by (simp add: mlex_leq)
next
  case (4 tb d ds st st')
  have "ts_visiting st' = ts_visiting st"
    using visit_visiting_dom(1)[OF 4(2) 4(1)] .
  then show ?case by (simp add: mlex_leq)
qed

declare visit.simps [simp del]


subsection \<open>The task loop\<close>



definition taskEntry :: "json \<Rightarrow> string \<Rightarrow> bool \<Rightarrow> string option \<Rightarrow> json" where
  "taskEntry task patchPath ok err =
     JObj ([(''id'', jget task ''id''), (''patchPath'', JStr patchPath), (''ok'', JBool ok)]
           @ (case err of Some m \<Rightarrow> [(''error'', JStr m)] | None \<Rightarrow> []))"







subsection \<open>execRun\<close>







section \<open>The verify command (scripts/ecc.js, scripts/ecc/report.js)\<close>



subsection \<open>writeReport (scripts/ecc/report.js)\<close>



subsection \<open>cmdVerify (scripts/ecc.js)\<close>





section \<open>Example machines\<close>






section \<open>Facts about paths\<close>



lemma split_from_not_Nil [simp]: "split_from c cur xs \<noteq> []"
  by (induction xs arbitrary: cur) auto











section \<open>Properties of the plan validator\<close>

lemma pushErr_append: "pushErr (es @ es') p m = es @ pushErr es' p m"
  by (simp add: pushErr_def)

lemma pushErr_not_Nil: "pushErr es p m \<noteq> []"
  by (simp add: pushErr_def)

lemma validateString_append: "validateString (es @ es') p v m = es @ validateString es' p v m"
  by (simp add: validateString_def pushErr_append split: json.splits)

lemma validateString_Nil_iff: "validateString [] p v (Suc 0) = [] \<longleftrightarrow> nonempty_str v"
  by (cases v) (auto simp: validateString_def pushErr_def)

lemma validateStringItems_append:
  "validateStringItems (es @ es') p i xs = es @ validateStringItems es' p i xs"
  by (induction xs arbitrary: i es') (simp_all add: validateString_append)

lemma validateStringItems_Nil_iff:
  "validateStringItems [] p i xs = [] \<longleftrightarrow> list_all nonempty_str xs"
proof (induction xs arbitrary: i)
  case Nil
  show ?case by simp
next
  case (Cons x xs)
  have "validateStringItems [] p i (x # xs)
        = validateString [] (p @ ''['' @ string_of_nat i @ '']'') x 1 @ validateStringItems [] p (Suc i) xs"
    using validateStringItems_append[of "validateString [] (p @ ''['' @ string_of_nat i @ '']'') x 1" "[]"]
    by simp
  then show ?case using Cons.IH[of "Suc i"] by (simp add: validateString_Nil_iff)
qed

lemma validateStringArray_append:
  "validateStringArray (es @ es') p v n = es @ validateStringArray es' p v n"
  by (simp add: validateStringArray_def pushErr_append validateStringItems_append split: json.splits)

lemma validateStringArray_Nil_iff: "validateStringArray [] p v n = [] \<longleftrightarrow> str_array n v"
proof (cases v)
  case (JArr xs)
  show ?thesis
  proof (cases "length xs < n")
    case True
    have "validateStringArray [] p v n
          = pushErr [] p (''expected array length >= '' @ string_of_nat n) @ validateStringItems [] p 0 xs"
      using True JArr validateStringItems_append[of "pushErr [] p (''expected array length >= '' @ string_of_nat n)" "[]"]
      by (simp add: validateStringArray_def)
    then show ?thesis using True JArr by (simp add: pushErr_def)
  next
    case False
    then show ?thesis using JArr by (simp add: validateStringArray_def validateStringItems_Nil_iff)
  qed
qed (simp_all add: validateStringArray_def pushErr_def)

lemma validateTaskFields_append:
  "validateTaskFields (es @ es') b t = es @ validateTaskFields es' b t"
  by (simp add: validateTaskFields_def Let_def validateString_append validateStringArray_append pushErr_append)


lemma validateString_eq_Nil: "validateString es p v (Suc 0) = [] \<longleftrightarrow> es = [] \<and> nonempty_str v"
  using validateString_append[of es "[]" p v "Suc 0"] validateString_Nil_iff[of p v] by auto

lemma validateStringArray_eq_Nil: "validateStringArray es p v n = [] \<longleftrightarrow> es = [] \<and> str_array n v"
  using validateStringArray_append[of es "[]" p v n] validateStringArray_Nil_iff[of p v n] by auto

lemma validateTaskFields_eq_Nil:
  "isObj t \<Longrightarrow> validateTaskFields es b t = [] \<longleftrightarrow> es = [] \<and> task_wf t"
  by (auto simp: validateTaskFields_def Let_def validateString_eq_Nil validateStringArray_eq_Nil
      pushErr_not_Nil task_wf_def)

lemma validateTaskFields_not_str:
  "\<not> isStr (jget t ''id'') \<Longrightarrow> validateTaskFields es b t \<noteq> []"
proof -
  assume a: "\<not> isStr (jget t ''id'')"
  have "\<not> nonempty_str (jget t ''id'')" using a by (cases "jget t ''id''") auto
  then have "validateString es (b @ ''.id'') (jget t ''id'') 1 \<noteq> []"
    by (simp add: validateString_eq_Nil)
  then show ?thesis
    by (auto simp: validateTaskFields_def Let_def validateString_eq_Nil validateStringArray_eq_Nil
      pushErr_not_Nil)
qed

lemma duplicateCheck_append: "duplicateCheck (es @ es') b t ids = es @ duplicateCheck es' b t ids"
  by (simp add: duplicateCheck_def pushErr_append)

lemma validateTasks_append:
  "validateTasks ts i ids (es @ es') = es @ validateTasks ts i ids es'"
  by (induction ts arbitrary: i ids es')
     (simp_all add: pushErr_append validateTaskFields_append duplicateCheck_append)

lemma validateTasks_not_Nil: "es \<noteq> [] \<Longrightarrow> validateTasks ts i ids es \<noteq> []"
  using validateTasks_append[of ts i ids es "[]"] by simp

lemma validateTasks_eq_Nil:
  "validateTasks ts i ids es = [] \<longleftrightarrow>
     es = [] \<and> list_all task_wf ts \<and> distinct (map task_id ts) \<and> task_id ` set ts \<inter> ids = {}"
proof (induction ts arbitrary: i ids es)
  case Nil
  show ?case by simp
next
  case (Cons t ts)
  show ?case
  proof (cases "isObj t")
    case False
    then show ?thesis
      by (simp add: validateTasks_not_Nil pushErr_not_Nil task_wf_def)
  next
    case obj: True
    show ?thesis
    proof (cases "isStr (jget t ''id'')")
      case False
      then have "\<not> task_wf t" by (cases "jget t ''id''") (auto simp: task_wf_def)
      with False obj show ?thesis
        by (simp add: validateTasks_not_Nil validateTaskFields_not_str)
    next
      case True
      with obj show ?thesis
        using Cons.IH[of "Suc i" "insert (jget t ''id'') ids"
            "duplicateCheck (validateTaskFields es (task_base i) t) (task_base i) t ids"]
        by (auto simp: duplicateCheck_def pushErr_not_Nil validateTaskFields_eq_Nil task_id_def)
    qed
  qed
qed


lemma checkDeps_append: "checkDeps tb i j ds (es @ es') = es @ checkDeps tb i j ds es'"
  by (induction ds arbitrary: j es') (simp_all add: pushErr_append)

lemma checkDeps_eq_Nil:
  "checkDeps tb i j ds es = [] \<longleftrightarrow> es = [] \<and> list_all (map_has tb) ds"
proof (induction ds arbitrary: j es)
  case Nil
  show ?case by simp
next
  case (Cons d ds)
  show ?case by (auto simp: Cons.IH pushErr_not_Nil)
qed

lemma task_wf_objD: "task_wf t \<Longrightarrow> isObj t \<and> isStr (jget t ''id'')"
  by (cases "jget t ''id''") (auto simp: task_wf_def)

lemma checkRefs_eq_Nil:
  "list_all task_wf ts \<Longrightarrow>
   checkRefs tb i ts es = [] \<longleftrightarrow> es = [] \<and> list_all (\<lambda>t. list_all (map_has tb) (deps_of t)) ts"
proof (induction ts arbitrary: i es)
  case Nil
  show ?case by simp
next
  case (Cons t ts)
  from Cons.prems have wf: "isObj t" "isStr (jget t ''id'')" and rest: "list_all task_wf ts"
    using task_wf_objD[of t] by simp_all
  show ?case using wf by (auto simp: Cons.IH[OF rest] checkDeps_eq_Nil)
qed

lemma checkRefs_append: "checkRefs tb i ts (es @ es') = es @ checkRefs tb i ts es'"
  by (induction ts arbitrary: i es') (simp_all add: checkDeps_append)

lemma checkRefs_not_Nil: "es \<noteq> [] \<Longrightarrow> checkRefs tb i ts es \<noteq> []"
  using checkRefs_append[of tb i ts es "[]"] by simp

lemma map_of_map_set: "map_of (map_set k v m) = (map_of m)(k \<mapsto> v)"
  by (induction m) (auto simp: fun_eq_iff)

lemma keys_map_set: "fst ` set (map_set k v m) = insert k (fst ` set m)"
  by (induction m) auto

lemma keys_buildTasksById:
  "list_all task_wf ts \<Longrightarrow> fst ` set (buildTasksById ts m) = fst ` set m \<union> task_id ` set ts"
proof (induction ts arbitrary: m)
  case Nil
  show ?case by simp
next
  case (Cons t ts)
  from Cons.prems have wf: "isObj t" "isStr (jget t ''id'')" and rest: "list_all task_wf ts"
    using task_wf_objD[of t] by simp_all
  show ?case using wf by (auto simp: Cons.IH[OF rest] keys_map_set task_id_def)
qed

lemma map_of_buildTasksById_other:
  "k \<notin> task_id ` set ts \<Longrightarrow> map_of (buildTasksById ts m) k = map_of m k"
  by (induction ts arbitrary: m) (auto simp: map_of_map_set task_id_def)

lemma map_of_buildTasksById:
  "list_all task_wf ts \<Longrightarrow> distinct (map task_id ts) \<Longrightarrow> t \<in> set ts \<Longrightarrow>
   map_of (buildTasksById ts m) (task_id t) = Some t"
proof (induction ts arbitrary: m)
  case Nil
  then show ?case by simp
next
  case (Cons a ts)
  from Cons.prems have wf: "isObj a" "isStr (jget a ''id'')" and rest: "list_all task_wf ts"
    and d: "distinct (map task_id ts)" and notin: "task_id a \<notin> task_id ` set ts"
    using task_wf_objD[of a] by simp_all
  show ?case
  proof (cases "t \<in> set ts")
    case True
    then show ?thesis using Cons.IH[OF rest d True] by simp
  next
    case False
    with Cons.prems have "t = a" by simp
    then show ?thesis using wf notin
      by (simp add: map_of_buildTasksById_other map_of_map_set task_id_def)
  qed
qed

lemma map_of_buildTasksById_Some:
  assumes "list_all task_wf ts" and "distinct (map task_id ts)"
    and "map_of (buildTasksById ts []) k = Some t"
  shows "t \<in> set ts \<and> task_id t = k"
proof -
  have "k \<in> task_id ` set ts"
    using assms(3) map_of_buildTasksById_other[of k ts "[]"] by (cases "k \<in> task_id ` set ts") auto
  then obtain t' where t': "t' \<in> set ts" "task_id t' = k" by auto
  with map_of_buildTasksById[OF assms(1,2) t'(1), of "[]"] assms(3) show ?thesis by simp
qed

lemma dfs_edges_buildTasksById:
  assumes "list_all task_wf ts" and "distinct (map task_id ts)"
  shows "dfs_edges (buildTasksById ts []) = dep_edges ts"
proof (rule set_eqI)
  fix e :: "json \<times> json"
  obtain k d where e: "e = (k, d)" by (cases e)
  show "e \<in> dfs_edges (buildTasksById ts []) \<longleftrightarrow> e \<in> dep_edges ts"
  proof
    assume "e \<in> dfs_edges (buildTasksById ts [])"
    then obtain t where t: "map_of (buildTasksById ts []) k = Some t" "d \<in> set (deps_of t)"
      using e by (auto simp: dfs_edges_def)
    from map_of_buildTasksById_Some[OF assms t(1)] t(2)
    show "e \<in> dep_edges ts" using e by (auto simp: dep_edges_def)
  next
    assume "e \<in> dep_edges ts"
    then obtain t where t: "t \<in> set ts" "k = task_id t" "d \<in> set (deps_of t)"
      using e by (auto simp: dep_edges_def)
    from map_of_buildTasksById[OF assms t(1), of "[]"] t
    show "e \<in> dfs_edges (buildTasksById ts [])" using e by (auto simp: dfs_edges_def)
  qed
qed


lemma dfs_visiting:
  "visiting (dfs tb v st) = visiting st"
  "visiting (dfs_each tb ds st) = visiting st"
proof (induction tb v st and tb ds st rule: dfs_dfs_each.induct)
  case (1 tb v st)
  show ?case
  proof (cases "map_of tb v")
    case None
    then show ?thesis by (auto simp: dfs.simps Let_def)
  next
    case (Some t)
    then show ?thesis using 1[of t] by (auto simp: dfs.simps Let_def)
  qed
next
  case (2 tb st)
  show ?case by simp
next
  case (3 tb d ds st)
  then show ?case by simp
qed

lemma dfs_errs_grow:
  "\<exists>new. errs (dfs tb v st) = errs st @ new"
  "\<exists>new. errs (dfs_each tb ds st) = errs st @ new"
proof (induction tb v st and tb ds st rule: dfs_dfs_each.induct)
  case (1 tb v st)
  show ?case
  proof (cases "map_of tb v")
    case None
    then show ?thesis by (simp add: dfs.simps Let_def pushErr_def)
  next
    case (Some t)
    then show ?thesis using 1[of t] by (auto simp: dfs.simps Let_def pushErr_def)
  qed
next
  case (2 tb st)
  show ?case by simp
next
  case (3 tb d ds st)
  then show ?case by auto
qed

lemma dfs_each_errs_grow: "\<exists>new. errs (dfs_each tb ds st) = errs st @ new"
  by (rule dfs_errs_grow(2))

lemma dfs_visited_mono:
  "visited st \<subseteq> visited (dfs tb v st)"
  "visited st \<subseteq> visited (dfs_each tb ds st)"
proof (induction tb v st and tb ds st rule: dfs_dfs_each.induct)
  case (1 tb v st)
  show ?case
  proof (cases "map_of tb v")
    case None
    then show ?thesis by (auto simp: dfs.simps Let_def)
  next
    case (Some t)
    then show ?thesis using 1[of t] by (auto simp: dfs.simps Let_def)
  qed
next
  case (2 tb st)
  show ?case by simp
next
  case (3 tb d ds st)
  then show ?case by auto
qed

lemma dfs_each_visited_mono: "visited st \<subseteq> visited (dfs_each tb ds st)"
  by (rule dfs_visited_mono(2))

lemma dfs_each_visiting: "visiting (dfs_each tb ds st) = visiting st"
  by (rule dfs_visiting(2))

lemma dfs_one_visiting: "visiting (dfs tb v st) = visiting st"
  by (rule dfs_visiting(1))

lemma closed_under_rtrancl:
  "(a, b) \<in> E\<^sup>* \<Longrightarrow> closed_under E V \<Longrightarrow> a \<in> V \<Longrightarrow> b \<in> V"
  by (induction rule: rtrancl_induct) (auto simp: closed_under_def)

lemma finish_vertex:
  assumes cl: "closed_under E V" and cf: "cycle_free_on E V"
    and succ: "\<And>b. (v, b) \<in> E \<Longrightarrow> b \<in> V"
  shows "closed_under E (insert v V) \<and> cycle_free_on E (insert v V)"
proof
  show "closed_under E (insert v V)"
    using cl succ by (auto simp: closed_under_def)
  show "cycle_free_on E (insert v V)"
    unfolding cycle_free_on_def
  proof (intro allI impI)
    fix a assume a: "a \<in> insert v V"
    show "(a, a) \<notin> E\<^sup>+"
    proof
      assume cyc: "(a, a) \<in> E\<^sup>+"
      have "a \<notin> V" using cyc cf by (auto simp: cycle_free_on_def)
      with a have av: "a = v" by simp
      from cyc obtain w where w: "(a, w) \<in> E" "(w, a) \<in> E\<^sup>*" by (auto dest: tranclD)
      from w(1) av have "w \<in> V" using succ by simp
      with closed_under_rtrancl[OF w(2) cl] have "a \<in> V" by simp
      with \<open>a \<notin> V\<close> show False by simp
    qed
  qed
qed


lemma dfs_edges_succ:
  "map_of tb v = Some t \<Longrightarrow> (v, b) \<in> dfs_edges tb \<longleftrightarrow> b \<in> set (deps_of t)"
  "map_of tb v = None \<Longrightarrow> (v, b) \<notin> dfs_edges tb"
  by (simp_all add: dfs_edges_def)

lemma dfs_no_error_invariant:
  "errs (dfs tb v st) = errs st \<Longrightarrow>
   closed_under (dfs_edges tb) (visited st) \<Longrightarrow> cycle_free_on (dfs_edges tb) (visited st) \<Longrightarrow>
   v \<in> visited (dfs tb v st) \<and> closed_under (dfs_edges tb) (visited (dfs tb v st))
     \<and> cycle_free_on (dfs_edges tb) (visited (dfs tb v st))"
  "errs (dfs_each tb ds st) = errs st \<Longrightarrow>
   closed_under (dfs_edges tb) (visited st) \<Longrightarrow> cycle_free_on (dfs_edges tb) (visited st) \<Longrightarrow>
   set ds \<subseteq> visited (dfs_each tb ds st) \<and> closed_under (dfs_edges tb) (visited (dfs_each tb ds st))
     \<and> cycle_free_on (dfs_edges tb) (visited (dfs_each tb ds st))"
proof (induction tb v st and tb ds st rule: dfs_dfs_each.induct)
  case (1 tb v st)
  show ?case
  proof (cases "v \<in> visited st")
    case True
    then show ?thesis using "1.prems" by (simp add: dfs.simps)
  next
    case nv: False
    show ?thesis
    proof (cases "v \<in> visiting st")
      case True
      then show ?thesis using "1.prems"(1) nv by (simp add: dfs.simps pushErr_def)
    next
      case ng: False
      show ?thesis
      proof (cases "map_of tb v")
        case None
        have "closed_under (dfs_edges tb) (insert v (visited st))
              \<and> cycle_free_on (dfs_edges tb) (insert v (visited st))"
          using "1.prems"(2,3) dfs_edges_succ(2)[OF None] by (intro finish_vertex) auto
        then show ?thesis using nv ng None by (simp add: dfs.simps Let_def)
      next
        case (Some t)
        let ?sa = "st\<lparr>visiting := insert v (visiting st)\<rparr>"
        let ?sb = "dfs_each tb (deps_of t) ?sa"
        have res: "dfs tb v st = ?sb\<lparr>visiting := visiting ?sb - {v}, visited := insert v (visited ?sb)\<rparr>"
          using nv ng Some by (simp add: dfs.simps Let_def)
        have e: "errs ?sb = errs ?sa" using "1.prems"(1) res by simp
        have ih: "set (deps_of t) \<subseteq> visited ?sb \<and> closed_under (dfs_edges tb) (visited ?sb)
                  \<and> cycle_free_on (dfs_edges tb) (visited ?sb)"
          using "1.IH"[OF nv ng Some e] "1.prems"(2,3) by simp
        have "closed_under (dfs_edges tb) (insert v (visited ?sb))
              \<and> cycle_free_on (dfs_edges tb) (insert v (visited ?sb))"
          using ih dfs_edges_succ(1)[OF Some] by (intro finish_vertex) auto
        then show ?thesis using res by simp
      qed
    qed
  qed
next
  case (2 tb st)
  then show ?case by simp
next
  case (3 tb d ds st)
  let ?sd = "dfs tb d st"
  obtain n1 where n1: "errs ?sd = errs st @ n1" using dfs_errs_grow(1) by blast
  obtain n2 where n2: "errs (dfs_each tb ds ?sd) = errs ?sd @ n2" using dfs_each_errs_grow by blast
  from "3.prems"(1) n1 n2 have z: "n1 = []" "n2 = []" by simp_all
  have e1: "errs ?sd = errs st" using n1 z by simp
  have e2: "errs (dfs_each tb ds ?sd) = errs ?sd" using n2 z by simp
  from "3.IH"(1)[OF e1 "3.prems"(2,3)]
  have a: "d \<in> visited ?sd" "closed_under (dfs_edges tb) (visited ?sd)"
    "cycle_free_on (dfs_edges tb) (visited ?sd)" by simp_all
  from "3.IH"(2)[OF e2 a(2,3)]
  have b: "set ds \<subseteq> visited (dfs_each tb ds ?sd)"
    "closed_under (dfs_edges tb) (visited (dfs_each tb ds ?sd))"
    "cycle_free_on (dfs_edges tb) (visited (dfs_each tb ds ?sd))" by simp_all
  have "d \<in> visited (dfs_each tb ds ?sd)" using a(1) dfs_each_visited_mono[of ?sd tb ds] by auto
  with b show ?case by simp
qed

lemma dfs_acyclic_no_error:
  "acyclic (dfs_edges tb) \<Longrightarrow> (\<And>u. u \<in> visiting st \<Longrightarrow> (u, v) \<in> (dfs_edges tb)\<^sup>+) \<Longrightarrow>
   errs (dfs tb v st) = errs st"
  "acyclic (dfs_edges tb) \<Longrightarrow>
   (\<And>u d. u \<in> visiting st \<Longrightarrow> d \<in> set ds \<Longrightarrow> (u, d) \<in> (dfs_edges tb)\<^sup>+) \<Longrightarrow>
   errs (dfs_each tb ds st) = errs st"
proof (induction tb v st and tb ds st rule: dfs_dfs_each.induct)
  case (1 tb v st)
  have ng: "v \<notin> visiting st"
    using "1.prems" by (auto simp: acyclic_def)
  show ?case
  proof (cases "v \<in> visited st")
    case True
    then show ?thesis by (simp add: dfs.simps)
  next
    case nv: False
    show ?thesis
    proof (cases "map_of tb v")
      case None
      then show ?thesis using nv ng by (simp add: dfs.simps Let_def)
    next
      case (Some t)
      let ?sa = "st\<lparr>visiting := insert v (visiting st)\<rparr>"
      have pre: "\<And>u d. u \<in> visiting ?sa \<Longrightarrow> d \<in> set (deps_of t) \<Longrightarrow> (u, d) \<in> (dfs_edges tb)\<^sup>+"
      proof -
        fix u d assume u: "u \<in> visiting ?sa" and d: "d \<in> set (deps_of t)"
        have edge: "(v, d) \<in> dfs_edges tb" using d dfs_edges_succ(1)[OF Some] by simp
        show "(u, d) \<in> (dfs_edges tb)\<^sup>+"
        proof (cases "u = v")
          case True
          then show ?thesis using edge by auto
        next
          case False
          with u have "u \<in> visiting st" by simp
          then have "(u, v) \<in> (dfs_edges tb)\<^sup>+" by (rule "1.prems"(2))
          then show ?thesis using edge by (rule trancl_into_trancl)
        qed
      qed
      have "errs (dfs_each tb (deps_of t) ?sa) = errs ?sa"
        using "1.IH"[OF nv ng Some "1.prems"(1)] pre by blast
      then show ?thesis using nv ng Some by (simp add: dfs.simps Let_def)
    qed
  qed
next
  case (2 tb st)
  show ?case by simp
next
  case (3 tb d ds st)
  have a: "errs (dfs tb d st) = errs st"
    using "3.IH"(1)[OF "3.prems"(1)] "3.prems"(2) by simp
  have b: "errs (dfs_each tb ds (dfs tb d st)) = errs (dfs tb d st)"
    using "3.IH"(2)[OF "3.prems"(1)] "3.prems"(2) by (simp add: dfs_one_visiting)
  show ?case using a b by simp
qed

lemma dfs_keys_eq_Nil:
  "errs (dfs_each tb (map fst tb) \<lparr>visiting = {}, visited = {}, errs = es\<rparr>) = [] \<longleftrightarrow>
     es = [] \<and> acyclic (dfs_edges tb)"
proof -
  let ?init = "\<lparr>visiting = {}, visited = {}, errs = es\<rparr>"
  let ?st = "dfs_each tb (map fst tb) ?init"
  obtain new where new: "errs ?st = es @ new" using dfs_each_errs_grow[of tb "map fst tb" ?init] by auto
  show ?thesis
  proof
    assume nil: "errs ?st = []"
    with new have es: "es = []" by simp
    have e: "errs ?st = errs ?init" using nil es by simp
    have inv: "set (map fst tb) \<subseteq> visited ?st" "cycle_free_on (dfs_edges tb) (visited ?st)"
      using dfs_no_error_invariant(2)[OF e] by (simp_all add: closed_under_def cycle_free_on_def)
    have "acyclic (dfs_edges tb)"
      unfolding acyclic_def
    proof (intro allI notI)
      fix a assume cyc: "(a, a) \<in> (dfs_edges tb)\<^sup>+"
      then obtain w where "(a, w) \<in> dfs_edges tb" by (auto dest: tranclD)
      then obtain t where "map_of tb a = Some t" by (auto simp: dfs_edges_def)
      then have "a \<in> fst ` set tb" by (metis map_of_eq_None_iff option.distinct(1))
      with inv(1) have "a \<in> visited ?st" by auto
      with inv(2) cyc show False by (auto simp: cycle_free_on_def)
    qed
    with es show "es = [] \<and> acyclic (dfs_edges tb)" by simp
  next
    assume a: "es = [] \<and> acyclic (dfs_edges tb)"
    then have "errs ?st = errs ?init"
      by (intro dfs_acyclic_no_error(2)) simp_all
    with a show "errs ?st = []" by simp
  qed
qed


lemma plan_checks_eq_Nil:
  fixes tasks :: "json list"
  defines "tb \<equiv> buildTasksById tasks []"
  shows "errs (dfs_each tb (map fst tb)
           \<lparr>visiting = {}, visited = {}, errs = checkRefs tb 0 tasks (validateTasks tasks 0 {} es)\<rparr>) = []
         \<longleftrightarrow> es = [] \<and> list_all task_wf tasks \<and> distinct (map task_id tasks)
              \<and> deps_resolve tasks \<and> acyclic (dep_edges tasks)"
proof (cases "es = [] \<and> list_all task_wf tasks \<and> distinct (map task_id tasks)")
  case False
  then have "validateTasks tasks 0 {} es \<noteq> []" by (simp add: validateTasks_eq_Nil)
  then have "checkRefs tb 0 tasks (validateTasks tasks 0 {} es) \<noteq> []" by (rule checkRefs_not_Nil)
  then show ?thesis using False by (auto simp: dfs_keys_eq_Nil)
next
  case True
  then have wf: "list_all task_wf tasks" and d: "distinct (map task_id tasks)" by simp_all
  have v: "validateTasks tasks 0 {} [] = []" using True by (simp add: validateTasks_eq_Nil)
  have has: "map_has tb = (\<lambda>x. x \<in> task_id ` set tasks)"
    using keys_buildTasksById[OF wf, of "[]"] by (simp add: map_has_def tb_def fun_eq_iff)
  have r: "checkRefs tb 0 tasks [] = [] \<longleftrightarrow> deps_resolve tasks"
    by (simp add: checkRefs_eq_Nil[OF wf] has deps_resolve_def)
  have e: "dfs_edges tb = dep_edges tasks"
    unfolding tb_def by (rule dfs_edges_buildTasksById[OF wf d])
  show ?thesis using True by (simp add: dfs_keys_eq_Nil v r e)
qed

text \<open>
  Claim C1, as the code has it. For every plan object, \<open>validatePlan\<close> returns the empty
  error list if and only if the version is 1, the intent is a non-empty string, \<open>tasks\<close>
  is an array with at least one entry, every task is a well-formed task object (non-empty
  string \<open>id\<close>, \<open>title\<close> and \<open>prompt\<close>, \<open>kind\<close> equal to \<open>patch\<close>, \<open>dependsOn\<close> falsy or an
  array of non-empty strings, \<open>allowedPathPrefixes\<close> a non-empty array of non-empty
  strings), the task ids are unique, every \<open>dependsOn\<close> entry is the id of a task of the
  plan, and the dependency graph over the task ids is acyclic.
\<close>

theorem validatePlan_empty_iff:
  "isObj plan \<Longrightarrow> validatePlan plan = [] \<longleftrightarrow> plan_ok plan"
proof -
  assume obj: "isObj plan"
  show ?thesis
  proof (cases "jget plan ''tasks''")
    case (JArr tasks)
    then show ?thesis using obj
      by (auto simp: validatePlan_def Let_def plan_checks_eq_Nil plan_ok_def plan_tasks_def
          validateString_eq_Nil pushErr_not_Nil)
  qed (simp_all add: validatePlan_def Let_def plan_ok_def obj pushErr_not_Nil)
qed


lemma acyclic_no_edges: "acyclic {}"
  by (simp add: acyclic_def)

text \<open>
  The theorem at a plan of two tasks, \<open>a\<close> depending on \<open>b\<close>: it meets every condition,
  so \<open>validatePlan\<close> reports nothing.
\<close>

theorem validatePlan_empty_iff_witness:
  "isObj (JObj [(''version'', JNum 1), (''intent'', JStr ''add feature''),
       (''tasks'', JArr [
          JObj [(''id'', JStr ''a''), (''title'', JStr ''core''), (''kind'', JStr ''patch''),
                (''dependsOn'', JArr [JStr ''b'']), (''allowedPathPrefixes'', JArr [JStr ''src/'']),
                (''prompt'', JStr ''do a'')],
          JObj [(''id'', JStr ''b''), (''title'', JStr ''tests''), (''kind'', JStr ''patch''),
                (''dependsOn'', JArr []), (''allowedPathPrefixes'', JArr [JStr ''tests/'']),
                (''prompt'', JStr ''do b'')]])])
   \<and> validatePlan (JObj [(''version'', JNum 1), (''intent'', JStr ''add feature''),
       (''tasks'', JArr [
          JObj [(''id'', JStr ''a''), (''title'', JStr ''core''), (''kind'', JStr ''patch''),
                (''dependsOn'', JArr [JStr ''b'']), (''allowedPathPrefixes'', JArr [JStr ''src/'']),
                (''prompt'', JStr ''do a'')],
          JObj [(''id'', JStr ''b''), (''title'', JStr ''tests''), (''kind'', JStr ''patch''),
                (''dependsOn'', JArr []), (''allowedPathPrefixes'', JArr [JStr ''tests/'']),
                (''prompt'', JStr ''do b'')]])]) = []"
proof -
  let ?p = "JObj [(''version'', JNum 1), (''intent'', JStr ''add feature''),
       (''tasks'', JArr [
          JObj [(''id'', JStr ''a''), (''title'', JStr ''core''), (''kind'', JStr ''patch''),
                (''dependsOn'', JArr [JStr ''b'']), (''allowedPathPrefixes'', JArr [JStr ''src/'']),
                (''prompt'', JStr ''do a'')],
          JObj [(''id'', JStr ''b''), (''title'', JStr ''tests''), (''kind'', JStr ''patch''),
                (''dependsOn'', JArr []), (''allowedPathPrefixes'', JArr [JStr ''tests/'']),
                (''prompt'', JStr ''do b'')]])]"
  have obj: "isObj ?p" by simp
  have ok: "plan_ok ?p"
    by (simp add: plan_ok_def plan_tasks_def task_wf_def task_id_def deps_resolve_def dep_edges_def
        deps_of_def acyclic_no_edges)
  from validatePlan_empty_iff[OF obj] ok obj show ?thesis by simp
qed

text \<open>
  Claim C1 as stated names five conditions only. This plan meets all five (version 1,
  non-empty intent, unique ids, no unresolved dependency, no cycle) and \<open>validatePlan\<close>
  still reports an error: its single task has an empty \<open>allowedPathPrefixes\<close>.
\<close>

theorem validatePlan_claimed_iff_counterexample:
  "claimed_plan_ok (JObj [(''version'', JNum 1), (''intent'', JStr ''add feature''),
          (''tasks'', JArr [
             JObj [(''id'', JStr ''a''), (''title'', JStr ''core''), (''kind'', JStr ''patch''),
                   (''dependsOn'', JArr []), (''allowedPathPrefixes'', JArr []),
                   (''prompt'', JStr ''do a'')]])])
   \<and> validatePlan (JObj [(''version'', JNum 1), (''intent'', JStr ''add feature''),
          (''tasks'', JArr [
             JObj [(''id'', JStr ''a''), (''title'', JStr ''core''), (''kind'', JStr ''patch''),
                   (''dependsOn'', JArr []), (''allowedPathPrefixes'', JArr []),
                   (''prompt'', JStr ''do a'')]])])
       = [(''$.tasks[0].allowedPathPrefixes'', ''expected array length >= 1'')]"
proof -
  let ?p = "JObj [(''version'', JNum 1), (''intent'', JStr ''add feature''),
          (''tasks'', JArr [
             JObj [(''id'', JStr ''a''), (''title'', JStr ''core''), (''kind'', JStr ''patch''),
                   (''dependsOn'', JArr []), (''allowedPathPrefixes'', JArr []),
                   (''prompt'', JStr ''do a'')]])]"
  have c: "claimed_plan_ok ?p"
    by (simp add: claimed_plan_ok_def plan_tasks_def task_id_def deps_resolve_def dep_edges_def
        deps_of_def acyclic_no_edges)
  have v: "validatePlan ?p = [(''$.tasks[0].allowedPathPrefixes'', ''expected array length >= 1'')]"
    by code_simp
  from c v show ?thesis by simp
qed

section \<open>Properties of patch ownership and application\<close>

lemma touchedLoop_extends: "\<exists>rest. touchedLoop lines seen files = files @ rest"
proof (induction lines arbitrary: seen files)
  case Nil
  show ?case by simp
next
  case (Cons l ls)
  show ?case
  proof (cases "headerFile l")
    case None
    then show ?thesis using Cons.IH[of seen files] by simp
  next
    case (Some f)
    show ?thesis
    proof (cases "normalizeRepoPath f")
      case None
      obtain rest where "touchedLoop ls seen (files @ [\<lparr>tf_path = f, tf_invalid = True\<rparr>])
          = (files @ [\<lparr>tf_path = f, tf_invalid = True\<rparr>]) @ rest"
        using Cons.IH by blast
      then show ?thesis using Some None by simp
    next
      case (Some n)
      obtain r1 where r1: "touchedLoop ls seen (files @ [\<lparr>tf_path = f, tf_invalid = True\<rparr>])
          = (files @ [\<lparr>tf_path = f, tf_invalid = True\<rparr>]) @ r1"
        using Cons.IH by blast
      obtain r2 where r2: "touchedLoop ls seen files = files @ r2"
        using Cons.IH by blast
      obtain r3 where r3: "touchedLoop ls (insert n seen) (files @ [\<lparr>tf_path = n, tf_invalid = False\<rparr>])
          = (files @ [\<lparr>tf_path = n, tf_invalid = False\<rparr>]) @ r3"
        using Cons.IH by blast
      show ?thesis using \<open>headerFile l = Some f\<close> Some r1 r2 r3 by simp
    qed
  qed
qed


lemma touchedLoop_not_Nil: "files \<noteq> [] \<Longrightarrow> touchedLoop lines seen files \<noteq> []"
  using touchedLoop_extends[of lines seen files] by auto

lemma touchedLoop_no_headers:
  "(\<And>l. l \<in> set lines \<Longrightarrow> headerFile l = None) \<Longrightarrow> touchedLoop lines seen files = files"
  by (induction lines arbitrary: seen files) simp_all


lemma collectViolations_eq:
  "collectViolations allowed fs vs =
     vs @ map (\<lambda>f. if tf_invalid f then ''invalid path in patch: '' @ tf_path f
                    else ''unauthorized path: '' @ tf_path f)
            (filter (\<lambda>f. tf_invalid f \<or> \<not> pathAllowed allowed (tf_path f)) fs)"
  by (induction fs arbitrary: vs) simp_all


lemma touchedLoop_header_not_Nil:
  "l \<in> set lines \<Longrightarrow> headerFile l = Some f \<Longrightarrow> seen = {} \<or> files \<noteq> [] \<Longrightarrow>
   touchedLoop lines seen files \<noteq> []"
proof (induction lines arbitrary: seen files)
  case Nil
  then show ?case by simp
next
  case (Cons a ls)
  show ?case
  proof (cases "headerFile a")
    case None
    then have "l \<in> set ls" using Cons.prems by auto
    then show ?thesis using None Cons.IH[OF _ Cons.prems(2,3)] by simp
  next
    case (Some g)
    show ?thesis
    proof (cases "normalizeRepoPath g")
      case None
      then show ?thesis using Some by (simp add: touchedLoop_not_Nil)
    next
      case (Some n)
      then show ?thesis using \<open>headerFile a = Some g\<close> Cons.prems(3)
        by (auto simp: touchedLoop_not_Nil)
    qed
  qed
qed

lemma touchedFiles_Nil_iff:
  "touchedFilesFromUnifiedDiff patchText = [] \<longleftrightarrow> (\<forall>l\<in>set (splitLines patchText). headerFile l = None)"
proof
  assume e: "touchedFilesFromUnifiedDiff patchText = []"
  show "\<forall>l\<in>set (splitLines patchText). headerFile l = None"
  proof (rule ccontr)
    assume "\<not> (\<forall>l\<in>set (splitLines patchText). headerFile l = None)"
    then obtain l f where l: "l \<in> set (splitLines patchText)" "headerFile l = Some f" by auto
    from touchedLoop_header_not_Nil[OF l, of "{}" "[]"] e
    show False by (simp add: touchedFilesFromUnifiedDiff_def)
  qed
next
  assume "\<forall>l\<in>set (splitLines patchText). headerFile l = None"
  then show "touchedFilesFromUnifiedDiff patchText = []"
    by (simp add: touchedFilesFromUnifiedDiff_def touchedLoop_no_headers)
qed

text \<open>
  Claim C3, as the code has it. When the patch is applied locally (the kernel bridge
  returned no object with a \<open>touchedFiles\<close> array), \<open>applyPatch\<close> on an empty or
  white-space-only text succeeds with an empty touched-file list, and on a text with
  other content of which no line is a \<open>diff --git\<close> section header it fails as malformed;
  in both cases the working copy is left as it was. When the bridge answers with an
  object that has a \<open>touchedFiles\<close> array, \<open>applyPatch\<close> returns that array, and when the
  bridge raises, \<open>applyPatch\<close> raises the same error, whatever the patch text is.
\<close>

theorem applyPatch_empty_or_malformed:
  "(\<not> (truthy k \<and> isArray (jget k ''touchedFiles'')) \<longrightarrow>
      (trim patchText = [] \<longrightarrow>
         applyPatch runGit (Inr k) patchText worktreePath patchPath allowedPathPrefixes w
           = (Inr (JArr []), w))
      \<and> (trim patchText \<noteq> [] \<and> (\<forall>l\<in>set (splitLines patchText). headerFile l = None) \<longrightarrow>
           applyPatch runGit (Inr k) patchText worktreePath patchPath allowedPathPrefixes w
             = (Inl (Error (''patch has content but no '' @ dq @ ''diff --git'' @ dq
                            @ '' headers (not a unified diff?)'')), w)))
   \<and> (truthy k \<and> isArray (jget k ''touchedFiles'') \<longrightarrow>
        applyPatch runGit (Inr k) patchText worktreePath patchPath allowedPathPrefixes w
          = (Inr (jget k ''touchedFiles''), w))
   \<and> applyPatch runGit (Inl e) patchText worktreePath patchPath allowedPathPrefixes w = (Inl e, w)"
  using touchedFiles_Nil_iff[of patchText]
  by (auto simp: applyPatch_def Let_def)

lemma splitLines_plain [simp]: "splitLines ''not a diff'' = [''not a diff'']"
  by (simp add: splitLines_def)

text \<open>
  The theorem at a patch of two blanks and at the text \<open>not a diff\<close>, with the kernel
  bridge off: the first succeeds with no touched file, the second is refused, and the
  working copy keeps its one file.
\<close>

theorem applyPatch_empty_or_malformed_witness:
  "applyPatch (\<lambda>args w. (\<lparr>g_ok = True, g_stdout = [], g_stderr = []\<rparr>, insert ''src/a.txt'' w))
       (Inr JNull) ''  '' ''/tmp/wt'' ''/p/t1.diff'' (JArr [JStr ''src/'']) {''README.md''}
     = (Inr (JArr []), {''README.md''})
   \<and> applyPatch (\<lambda>args w. (\<lparr>g_ok = True, g_stdout = [], g_stderr = []\<rparr>, insert ''src/a.txt'' w))
       (Inr JNull) ''not a diff'' ''/tmp/wt'' ''/p/t1.diff'' (JArr [JStr ''src/'']) {''README.md''}
     = (Inl (Error (''patch has content but no '' @ dq @ ''diff --git'' @ dq
                    @ '' headers (not a unified diff?)'')), {''README.md''})"
proof -
  have t1: "trim ''  '' = []" by (simp add: trim_def trimStart_def trimEnd_def is_js_space_def)
  have t2: "trim ''not a diff'' \<noteq> []" by (simp add: trim_def trimStart_def trimEnd_def is_js_space_def)
  have h: "\<forall>l\<in>set (splitLines ''not a diff''). headerFile l = None"
    by (simp add: headerFile_def startsWith_def)
  have k: "\<not> (truthy JNull \<and> isArray (jget JNull ''touchedFiles''))" by simp
  let ?git = "\<lambda>(args :: string list) (w :: string set). (\<lparr>g_ok = True, g_stdout = [], g_stderr = []\<rparr>, insert ''src/a.txt'' w)"
  have a: "applyPatch ?git (Inr JNull) ''  '' ''/tmp/wt'' ''/p/t1.diff'' (JArr [JStr ''src/'']) {''README.md''}
             = (Inr (JArr []), {''README.md''})"
    using applyPatch_empty_or_malformed[where k = JNull and patchText = "''  ''" and w = "{''README.md''}"
        and runGit = ?git and worktreePath = "''/tmp/wt''" and patchPath = "''/p/t1.diff''"
        and allowedPathPrefixes = "JArr [JStr ''src/'']" and e = "Error []"] t1 k
    by blast
  have b: "applyPatch ?git (Inr JNull) ''not a diff'' ''/tmp/wt'' ''/p/t1.diff'' (JArr [JStr ''src/'']) {''README.md''}
             = (Inl (Error (''patch has content but no '' @ dq @ ''diff --git'' @ dq
                    @ '' headers (not a unified diff?)'')), {''README.md''})"
    using applyPatch_empty_or_malformed[where k = JNull and patchText = "''not a diff''" and w = "{''README.md''}"
        and runGit = ?git and worktreePath = "''/tmp/wt''" and patchPath = "''/p/t1.diff''"
        and allowedPathPrefixes = "JArr [JStr ''src/'']" and e = "Error []"] t2 h k
    by blast
  from a b show ?thesis by (rule conjI)
qed

text \<open>
  Claim C3 as stated fails when the kernel bridge answers: on a patch of two blanks
  \<open>applyPatch\<close> returns the helper's touched-file list, which is not empty, and on the
  text \<open>not a diff\<close> it succeeds with that list where the claim has it fail as malformed.
\<close>

theorem applyPatch_bridge_answer_counterexample:
  "trim ''  '' = []
   \<and> applyPatch (\<lambda>args w. (\<lparr>g_ok = True, g_stdout = [], g_stderr = []\<rparr>, insert ''src/a.txt'' w))
       (Inr (JObj [(''touchedFiles'', JArr [JStr ''src/a.txt''])]))
       ''  '' ''/tmp/wt'' ''/p/t1.diff'' (JArr [JStr ''src/'']) {''README.md''}
     = (Inr (JArr [JStr ''src/a.txt'']), {''README.md''})
   \<and> trim ''not a diff'' \<noteq> []
   \<and> map headerFile (splitLines ''not a diff'') = [None]
   \<and> applyPatch (\<lambda>args w. (\<lparr>g_ok = True, g_stdout = [], g_stderr = []\<rparr>, insert ''src/a.txt'' w))
       (Inr (JObj [(''touchedFiles'', JArr [JStr ''src/a.txt''])]))
       ''not a diff'' ''/tmp/wt'' ''/p/t1.diff'' (JArr [JStr ''src/'']) {''README.md''}
     = (Inr (JArr [JStr ''src/a.txt'']), {''README.md''})"
  by (simp add: applyPatch_def trim_def trimStart_def trimEnd_def is_js_space_def
      headerFile_def startsWith_def)











lemma withTrailingSlash_not_Nil: "withTrailingSlash p \<noteq> []"
  by (auto simp: withTrailingSlash_def endsWith_def)

lemma allowedPrefixes_strings:
  "allowedPrefixes (JArr (map JStr ps)) = map (\<lambda>p. withTrailingSlash (backslashToSlash p)) ps"
proof -
  have "\<And>p. (if truthy (JStr p) then js_String (JStr p) else []) = p" by simp
  then show ?thesis
    by (simp add: allowedPrefixes_def withTrailingSlash_not_Nil comp_def)
qed

lemma ensureOwned_single:
  "ps \<noteq> [] \<Longrightarrow>
   ensureOwned [\<lparr>tf_path = path, tf_invalid = False\<rparr>] (JArr (map JStr ps)) = Inr () \<longleftrightarrow>
     (\<exists>p\<in>set ps. path = butlast (withTrailingSlash (backslashToSlash p))
                 \<or> prefix (withTrailingSlash (backslashToSlash p)) path)"
proof -
  assume ne: "ps \<noteq> []"
  have a: "allowedPrefixes (JArr (map JStr ps)) \<noteq> []"
    using ne by (simp add: allowedPrefixes_strings)
  have "ensureOwned [\<lparr>tf_path = path, tf_invalid = False\<rparr>] (JArr (map JStr ps)) = Inr ()
        \<longleftrightarrow> pathAllowed (allowedPrefixes (JArr (map JStr ps))) path"
    using a by (simp add: ensureOwned_def Let_def)
  also have "\<dots> \<longleftrightarrow> (\<exists>p\<in>set ps. path = butlast (withTrailingSlash (backslashToSlash p))
                 \<or> prefix (withTrailingSlash (backslashToSlash p)) path)"
    by (simp add: allowedPrefixes_strings pathAllowed_def list_ex_iff startsWith_def)
  finally show ?thesis .
qed

lemma applyPatch_rejected_no_mutation:
  assumes "kernelOut = Inr k" and "\<not> (truthy k \<and> isArray (jget k ''touchedFiles''))"
    and "ensureOwned (touchedFilesFromUnifiedDiff patchText) a = Inl e"
  shows "snd (applyPatch runGit kernelOut patchText worktreePath patchPath a w) = w
         \<and> (trim patchText \<noteq> [] \<longrightarrow> isl (fst (applyPatch runGit kernelOut patchText worktreePath patchPath a w)))"
  using assms by (auto simp: applyPatch_def Let_def)

text \<open>
  Claim C2, as the code has it. For a touched path and a non-empty list of prefix strings,
  \<open>ensureOwned\<close> accepts the path iff for some prefix, taken with its backslashes replaced
  by slashes and a slash appended unless it ends with one, the path equals that prefix
  without its last character or starts with it. The prefix \<open>src/\<close> accepts \<open>src/a.txt\<close> and
  \<open>src/sub/b.txt\<close> and refuses \<open>srcx/a.txt\<close> and \<open>README.md\<close>. When a locally applied patch
  is refused by \<open>ensureOwned\<close>, \<open>applyPatch\<close> leaves the working copy as it was, and raises
  an error unless the patch text is blank.
\<close>

theorem ownership_by_prefix:
  "(ps \<noteq> [] \<longrightarrow>
      (ensureOwned [\<lparr>tf_path = path, tf_invalid = False\<rparr>] (JArr (map JStr ps)) = Inr () \<longleftrightarrow>
         (\<exists>p\<in>set ps. path = butlast (withTrailingSlash (backslashToSlash p))
                     \<or> prefix (withTrailingSlash (backslashToSlash p)) path)))
   \<and> ensureOwned [\<lparr>tf_path = ''src/a.txt'', tf_invalid = False\<rparr>] (JArr [JStr ''src/'']) = Inr ()
   \<and> ensureOwned [\<lparr>tf_path = ''src/sub/b.txt'', tf_invalid = False\<rparr>] (JArr [JStr ''src/'']) = Inr ()
   \<and> ensureOwned [\<lparr>tf_path = ''srcx/a.txt'', tf_invalid = False\<rparr>] (JArr [JStr ''src/''])
        = Inl (Error (''patch ownership check failed:'' @ nl @ ''- unauthorized path: srcx/a.txt''))
   \<and> ensureOwned [\<lparr>tf_path = ''README.md'', tf_invalid = False\<rparr>] (JArr [JStr ''src/''])
        = Inl (Error (''patch ownership check failed:'' @ nl @ ''- unauthorized path: README.md''))
   \<and> (kernelOut = Inr k \<and> \<not> (truthy k \<and> isArray (jget k ''touchedFiles''))
        \<and> ensureOwned (touchedFilesFromUnifiedDiff patchText) a = Inl e \<longrightarrow>
          snd (applyPatch runGit kernelOut patchText worktreePath patchPath a w) = w
          \<and> (trim patchText \<noteq> [] \<longrightarrow>
                isl (fst (applyPatch runGit kernelOut patchText worktreePath patchPath a w))))"
proof (intro conjI)
  show "ps \<noteq> [] \<longrightarrow>
      (ensureOwned [\<lparr>tf_path = path, tf_invalid = False\<rparr>] (JArr (map JStr ps)) = Inr () \<longleftrightarrow>
         (\<exists>p\<in>set ps. path = butlast (withTrailingSlash (backslashToSlash p))
                     \<or> prefix (withTrailingSlash (backslashToSlash p)) path))"
    by (rule impI) (rule ensureOwned_single)
  show "ensureOwned [\<lparr>tf_path = ''src/a.txt'', tf_invalid = False\<rparr>] (JArr [JStr ''src/'']) = Inr ()"
    by code_simp
  show "ensureOwned [\<lparr>tf_path = ''src/sub/b.txt'', tf_invalid = False\<rparr>] (JArr [JStr ''src/'']) = Inr ()"
    by code_simp
  show "ensureOwned [\<lparr>tf_path = ''srcx/a.txt'', tf_invalid = False\<rparr>] (JArr [JStr ''src/''])
        = Inl (Error (''patch ownership check failed:'' @ nl @ ''- unauthorized path: srcx/a.txt''))"
    by code_simp
  show "ensureOwned [\<lparr>tf_path = ''README.md'', tf_invalid = False\<rparr>] (JArr [JStr ''src/''])
        = Inl (Error (''patch ownership check failed:'' @ nl @ ''- unauthorized path: README.md''))"
    by code_simp
  show "kernelOut = Inr k \<and> \<not> (truthy k \<and> isArray (jget k ''touchedFiles''))
        \<and> ensureOwned (touchedFilesFromUnifiedDiff patchText) a = Inl e \<longrightarrow>
          snd (applyPatch runGit kernelOut patchText worktreePath patchPath a w) = w
          \<and> (trim patchText \<noteq> [] \<longrightarrow>
                isl (fst (applyPatch runGit kernelOut patchText worktreePath patchPath a w)))"
    by (intro impI, elim conjE) (rule applyPatch_rejected_no_mutation)
qed


text \<open>
  The theorem at the prefixes \<open>src/\<close> and \<open>docs\<close> with the path \<open>docs\<close>, and at a patch
  touching \<open>README.md\<close> under the prefix \<open>src/\<close>: the first is accepted, the second is
  refused and the working copy keeps exactly its one file.
\<close>

theorem ownership_by_prefix_witness:
  "ensureOwned [\<lparr>tf_path = ''docs'', tf_invalid = False\<rparr>] (JArr (map JStr [''src/'', ''docs''])) = Inr ()
   \<and> snd (applyPatch (\<lambda>args w. (\<lparr>g_ok = True, g_stdout = [], g_stderr = []\<rparr>, insert ''README.md'' w))
             (Inr JNull) ''diff --git a/README.md b/README.md'' ''/tmp/wt'' ''/p/t1.diff''
             (JArr [JStr ''src/'']) {''src/a.txt''})
       = {''src/a.txt''}
   \<and> isl (fst (applyPatch (\<lambda>args w. (\<lparr>g_ok = True, g_stdout = [], g_stderr = []\<rparr>, insert ''README.md'' w))
             (Inr JNull) ''diff --git a/README.md b/README.md'' ''/tmp/wt'' ''/p/t1.diff''
             (JArr [JStr ''src/'']) {''src/a.txt''}))"
proof -
  let ?git = "\<lambda>(args :: string list) (w :: string set). (\<lparr>g_ok = True, g_stdout = [], g_stderr = []\<rparr>, insert ''README.md'' w)"
  let ?text = "''diff --git a/README.md b/README.md''"
  note inst = ownership_by_prefix[where ps = "[''src/'', ''docs'']" and path = "''docs''"
      and kernelOut = "Inr JNull" and k = JNull and patchText = "?text" and a = "JArr [JStr ''src/'']"
      and e = "Error (''patch ownership check failed:'' @ nl @ ''- unauthorized path: README.md'')"
      and runGit = "?git" and worktreePath = "''/tmp/wt''" and patchPath = "''/p/t1.diff''"
      and w = "{''src/a.txt''}"]
  have p: "\<exists>p\<in>set [''src/'', ''docs'']. ''docs'' = butlast (withTrailingSlash (backslashToSlash p))
                     \<or> prefix (withTrailingSlash (backslashToSlash p)) ''docs''"
    by (simp add: withTrailingSlash_def backslashToSlash_def endsWith_def)
  have a: "ensureOwned [\<lparr>tf_path = ''docs'', tf_invalid = False\<rparr>] (JArr (map JStr [''src/'', ''docs''])) = Inr ()"
    using inst p by blast
  have o: "ensureOwned (touchedFilesFromUnifiedDiff ?text) (JArr [JStr ''src/''])
           = Inl (Error (''patch ownership check failed:'' @ nl @ ''- unauthorized path: README.md''))"
    by code_simp
  have t: "trim ?text \<noteq> []" by code_simp
  have k: "\<not> (truthy JNull \<and> isArray (jget JNull ''touchedFiles''))" by simp
  have b: "snd (applyPatch ?git (Inr JNull) ?text ''/tmp/wt'' ''/p/t1.diff'' (JArr [JStr ''src/'']) {''src/a.txt''}) = {''src/a.txt''}
           \<and> isl (fst (applyPatch ?git (Inr JNull) ?text ''/tmp/wt'' ''/p/t1.diff'' (JArr [JStr ''src/'']) {''src/a.txt''}))"
    using inst o t k by blast
  from a b show ?thesis by blast
qed

text \<open>
  Claim C2 as stated normalises a prefix only by its trailing separator. The code first
  replaces backslashes: under the prefix made of \<open>src\<close> and a backslash it accepts
  \<open>src/a.txt\<close>, which neither equals that prefix nor starts with it.
\<close>

theorem backslash_prefix_counterexample:
  "ensureOwned [\<lparr>tf_path = ''src/a.txt'', tf_invalid = False\<rparr>] (JArr [JStr (''src'' @ [CHR 0x5C])]) = Inr ()
   \<and> \<not> specAuthorized [''src'' @ [CHR 0x5C]] ''src/a.txt''"
  by code_simp

section \<open>Working copies outside the repository\<close>

text \<open>
  Claim C9. \<open>ensureWorktree\<close> is to reject, creating nothing, every desired path that resolves
  to inside \<open>repoRoot\<close>. The containment test of \<open>assertExternalWorktreePath\<close> takes the
  path of the working copy relative to the repository and asks that it does not start with
  two dots; a directory of the repository whose name starts with two dots passes for the
  parent directory. With the repository at \<open>/repo\<close> and the working-copy root
  \<open>/repo/..wt\<close>, the desired path \<open>/repo/..wt/repo/run1\<close> resolves to inside the repository,
  \<open>assertExternalWorktreePath\<close> raises nothing, and \<open>ensureWorktree\<close> goes on to
  \<open>git worktree add\<close> at that path and returns it.
\<close>

theorem nested_dotdot_name_accepted:
  "defaultWorktreePath ''/tmp'' ''/repo'' ''run1'' (Some ''/repo/..wt'') = ''/repo/..wt/repo/run1''
   \<and> resolvesInside ''/home/u'' ''/repo'' ''/repo/..wt/repo/run1''
   \<and> assertExternalWorktreePath ''/home/u'' ''/repo'' ''/repo/..wt/repo/run1'' = Inr ()
   \<and> ensureWorktree
        \<lparr>sys_runGit = (\<lambda>args g. (\<lparr>g_ok = True, g_stdout = [], g_stderr = []\<rparr>, g @ [args])),
         sys_exists = (\<lambda>g p. False), sys_mkdir = (\<lambda>p g. g), sys_cwd = ''/home/u''\<rparr>
        ''/repo'' ''/repo/..wt/repo/run1'' ''ecc/run1'' ''abc123'' []
      = (Inr ''/repo/..wt/repo/run1'',
         [[''-C'', ''/repo'', ''show-ref'', ''--verify'', ''--quiet'', ''refs/heads/ecc/run1''],
          [''-C'', ''/repo'', ''worktree'', ''add'', ''/repo/..wt/repo/run1'', ''ecc/run1'']])"
  by code_simp

section \<open>Properties of the verify runner\<close>















section \<open>Properties of initialisation\<close>













section \<open>Properties of the exec stage\<close>







lemma taskEntry_fields [simp]:
  "jget (taskEntry task pp ok err) ''id'' = jget task ''id''"
  "jget (taskEntry task pp ok err) ''ok'' = JBool ok"
  by (simp_all add: taskEntry_def)








section \<open>Properties of the run status\<close>

lemma isObj_jset [simp]: "isObj (jset r k v) = isObj r"
  by (cases r) simp_all


















section \<open>Properties of the kernel bridge\<close>

section \<open>Properties of the kernel bridge\<close>

lemma sublist_join_mem: "x \<in> set xs \<Longrightarrow> sublist x (join sep xs)"
proof (induction sep xs rule: join.induct)
  case (1 sep)
  then show ?case by simp
next
  case (2 sep a)
  then show ?case by simp
next
  case (3 sep a b bs)
  then show ?case by (auto simp: sublist_append)
qed

lemma sublist_join_tagged: "(pre @ x) \<in> set xs \<Longrightarrow> sublist x (join sep xs)"
  using sublist_join_mem[of "pre @ x" xs sep] sublist_order.order.trans[of x "pre @ x"]
    sublist_appendI[of x pre "[]"]
  by simp

text \<open>
  Claim C10, as the code has it. For an enabled kernel whose child was spawned:
  a non-zero (or missing) exit status raises an error whose message contains the trimmed
  error stream and the trimmed output stream; a zero exit status whose trimmed output is
  non-empty and is rejected by \<open>JSON.parse\<close> raises an error; a zero exit status whose
  output is empty or white space only raises nothing and yields the empty object.
\<close>

theorem runKernel_exit_and_output:
  assumes "getKernel mode found = Inr k"
    and "k_enabled k"
    and "spawnSync (case k_bin k of Some b \<Rightarrow> b | None \<Rightarrow> []) command inputObj = res"
    and "sp_error res = None"
  shows "(sp_status res \<noteq> Some 0 \<longrightarrow>
            (\<exists>msg. runKernel JSON_parse spawnSync mode found command inputObj = Inl (Error msg)
                \<and> sublist (trim (sp_stderr res)) msg \<and> sublist (trim (sp_stdout res)) msg))
       \<and> (sp_status res = Some 0 \<and> trim (sp_stdout res) \<noteq> [] \<and> isl (JSON_parse (trim (sp_stdout res))) \<longrightarrow>
            isl (runKernel JSON_parse spawnSync mode found command inputObj))
       \<and> (sp_status res = Some 0 \<and> trim (sp_stdout res) = [] \<longrightarrow>
            runKernel JSON_parse spawnSync mode found command inputObj = Inr (JObj []))"
proof (intro conjI impI)
  assume ne: "sp_status res \<noteq> Some 0"
  let ?parts = "[''ecc-kernel '' @ command @ '' failed (exit '' @ status_text (sp_status res) @ '')'']
                 @ (if trim (sp_stderr res) \<noteq> [] then [''stderr:'' @ nl @ trim (sp_stderr res)] else [])
                 @ (if trim (sp_stdout res) \<noteq> [] then [''stdout:'' @ nl @ trim (sp_stdout res)] else [])"
  have run: "runKernel JSON_parse spawnSync mode found command inputObj = Inl (Error (join (nl @ nl) ?parts))"
    using assms ne by (simp add: runKernel_def Let_def)
  have err: "sublist (trim (sp_stderr res)) (join (nl @ nl) ?parts)"
  proof (cases "trim (sp_stderr res) = []")
    case True
    then show ?thesis by simp
  next
    case False
    then have "(''stderr:'' @ nl) @ trim (sp_stderr res) \<in> set ?parts" by simp
    then show ?thesis by (rule sublist_join_tagged)
  qed
  have out: "sublist (trim (sp_stdout res)) (join (nl @ nl) ?parts)"
  proof (cases "trim (sp_stdout res) = []")
    case True
    then show ?thesis by simp
  next
    case False
    then have "(''stdout:'' @ nl) @ trim (sp_stdout res) \<in> set ?parts" by simp
    then show ?thesis by (rule sublist_join_tagged)
  qed
  from run err out
  show "\<exists>msg. runKernel JSON_parse spawnSync mode found command inputObj = Inl (Error msg)
          \<and> sublist (trim (sp_stderr res)) msg \<and> sublist (trim (sp_stdout res)) msg"
    by blast
next
  assume "sp_status res = Some 0 \<and> trim (sp_stdout res) \<noteq> [] \<and> isl (JSON_parse (trim (sp_stdout res)))"
  then show "isl (runKernel JSON_parse spawnSync mode found command inputObj)"
    using assms by (auto simp: runKernel_def Let_def isl_def)
next
  assume "sp_status res = Some 0 \<and> trim (sp_stdout res) = []"
  then show "runKernel JSON_parse spawnSync mode found command inputObj = Inr (JObj [])"
    using assms by (simp add: runKernel_def Let_def)
qed

text \<open>
  The theorem at a concrete child that exits with status 2 and writes \<open>boom\<close> to its
  error stream: the error is raised and carries \<open>boom\<close>.
\<close>

theorem runKernel_exit_and_output_witness:
  "\<exists>msg. runKernel (\<lambda>s. Inl ''Unexpected token'')
            (\<lambda>b c i. \<lparr>sp_error = None, sp_status = Some 2, sp_stdout = '''', sp_stderr = ''boom''\<rparr>)
            Auto (Some ''ecc-kernel'') ''patch.apply'' (JObj []) = Inl (Error msg)
         \<and> sublist ''boom'' msg"
proof -
  let ?res = "\<lparr>sp_error = None, sp_status = Some 2, sp_stdout = '''', sp_stderr = ''boom''\<rparr>"
  let ?k = "\<lparr>k_mode = Auto, k_enabled = True, k_bin = Some ''ecc-kernel''\<rparr>"
  have g: "getKernel Auto (Some ''ecc-kernel'') = Inr ?k" by (simp add: getKernel_def)
  have t: "trim (sp_stderr ?res) = ''boom''"
    by (simp add: trim_def trimStart_def trimEnd_def is_js_space_def)
  have s: "sp_status ?res \<noteq> Some 0" by simp
  from runKernel_exit_and_output[where res = "?res" and spawnSync = "\<lambda>b c i. ?res"
      and JSON_parse = "\<lambda>s. Inl ''Unexpected token''" and command = "''patch.apply''"
      and inputObj = "JObj []", OF g] s t
  show ?thesis by auto
qed

text \<open>
  Claim C10 as stated fails on empty output: the child exits with status 0 and writes
  nothing, which no JSON parser accepts (here \<open>JSON.parse\<close> answers with its syntax
  error), and \<open>runKernel\<close> raises no error and substitutes the empty object.
\<close>

theorem runKernel_empty_output_counterexample:
  "isl ((\<lambda>s. Inl ''Unexpected end of JSON input'' :: string + json) '''')
   \<and> runKernel (\<lambda>s. Inl ''Unexpected end of JSON input'')
        (\<lambda>b c i. \<lparr>sp_error = None, sp_status = Some 0, sp_stdout = '''', sp_stderr = ''''\<rparr>)
        Auto (Some ''ecc-kernel'') ''patch.apply'' (JObj []) = Inr (JObj [])"
  by (simp add: runKernel_def getKernel_def trim_def trimStart_def trimEnd_def)

end
